theory Spec2Isabelle
  imports Main
begin

section \<open>Token model\<close>

text \<open>
  The tokenizer of package jsmngo.  A buffer is a Go byte slice; bytes are modelled as
  \<open>char\<close> (one octet each), so that inputs can be written as string literals.
\<close>

type_synonym byte = char

text \<open>
  The fields of a token are Go ints.  \<open>Start\<close> and \<open>End\<close> hold positions of the buffer or
  the sentinel \<open>-1\<close>, \<open>Size\<close> counts tokens and \<open>ParentIdx\<close> holds a token index or \<open>-1\<close>, so
  all of them stay far inside the 64-bit range and are unbounded integers here.
\<close>

datatype TokenType = Object | Array | String | Primitive

record Token =
  Type :: TokenType
  Start :: int
  End :: int
  Size :: int
  ParentIdx :: int

text \<open>
  The parser state.  \<open>pos\<close> and \<open>toknext\<close> are Go ints that are only ever reset to zero
  and incremented, and both stay below the length of a slice, so they are natural numbers
  here and no 64-bit wrap-around can occur.  \<open>toksuper\<close> takes the sentinel \<open>-1\<close> and is an
  integer.
\<close>

record Parser =
  pos :: nat
  toknext :: nat
  toksuper :: int
  tokens :: "Token list"

text \<open>
  Errors returned by the package, plus \<open>Panic\<close> for a Go run-time panic (an index out of
  range, or \<open>make\<close> with a negative length).
\<close>

datatype error =
    Overflow
  | UnclosedString
  | EmptyPrimitive
  | UnclosedContainer
  | SourceReadError
  | Panic

text \<open>The zero value of a Go \<open>Token\<close>: \<open>Object\<close> is the constant 0 of \<open>TokenType\<close>.\<close>

definition zeroToken :: Token where
  "zeroToken = \<lparr>Type = Object, Start = 0, End = 0, Size = 0, ParentIdx = 0\<rparr>"

text \<open>\<open>NewParser\<close>: \<open>make([]Token, numTokens)\<close> panics on a negative length.\<close>

definition NewParser :: "int \<Rightarrow> error + Parser" where
  "NewParser numTokens =
     (if numTokens < 0 then Inl Panic
      else Inr \<lparr>pos = 0, toknext = 0, toksuper = 0,
                tokens = replicate (nat numTokens) zeroToken\<rparr>)"

text \<open>
  \<open>Tokens\<close> is the slice \<open>p.tokens[:p.toknext]\<close>; the scanner keeps \<open>toknext\<close> within the
  length of the array (lemma \<open>Parse_result_inv\<close> below), so the slice expression is in range.
\<close>

definition Tokens :: "Parser \<Rightarrow> Token list" where
  "Tokens p = take (toknext p) (tokens p)"

section \<open>Allocator\<close>

text \<open>
  \<open>allocToken\<close> of the current source: the capacity check comes first, then the slot is
  written, the \<open>Size\<close> of the current container is incremented, and \<open>toknext\<close> advances.
  The read of \<open>p.tokens[p.toksuper]\<close> panics in Go when the index is out of range.
\<close>

definition allocToken :: "Token \<Rightarrow> Parser \<Rightarrow> error + Parser" where
  "allocToken tok p =
     (if toknext p \<ge> length (tokens p) then Inl Overflow
      else
        let ts1 = (tokens p)[toknext p := tok] in
        if toksuper p \<noteq> -1 then
          (if 0 \<le> toksuper p \<and> nat (toksuper p) < length ts1 then
             let s = nat (toksuper p);
                 ts2 = ts1[s := (ts1 ! s)\<lparr>Size := Size (ts1 ! s) + 1\<rparr>]
             in Inr (p\<lparr>tokens := ts2, toknext := toknext p + 1\<rparr>)
           else Inl Panic)
        else Inr (p\<lparr>tokens := ts1, toknext := toknext p + 1\<rparr>))"

section \<open>String sub-scanner\<close>

text \<open>
  The loop of \<open>parseString\<close>, entered after the opening quote has been skipped and the
  token record \<open>tok\<close> has been prepared.
\<close>

function parseString_loop :: "byte list \<Rightarrow> Token \<Rightarrow> Parser \<Rightarrow> error + Parser" where
  "parseString_loop json tok p =
     (if pos p < length json then
        let c = json ! pos p in
        if c = CHR 0x22 then
          (case allocToken (tok\<lparr>End := int (pos p)\<rparr>) p of
             Inl e \<Rightarrow> Inl e
           | Inr p' \<Rightarrow> Inr (p'\<lparr>pos := pos p' + 1\<rparr>))
        else if c = CHR 0x5C \<and> pos p + 1 < length json then
          parseString_loop json tok (p\<lparr>pos := pos p + 2\<rparr>)
        else parseString_loop json tok (p\<lparr>pos := pos p + 1\<rparr>)
      else Inl UnclosedString)"
  by pat_completeness auto
termination
  by (relation "measure (\<lambda>(json, tok, p). length json - pos p)") auto

definition parseString :: "byte list \<Rightarrow> Parser \<Rightarrow> error + Parser" where
  "parseString json p =
     (let p1 = p\<lparr>pos := pos p + 1\<rparr>;
          tok = \<lparr>Type = String, Start = int (pos p1), End = -1, Size = 0,
                 ParentIdx = toksuper p1\<rparr>
      in parseString_loop json tok p1)"

section \<open>Primitive sub-scanner\<close>

definition is_delimiter :: "byte \<Rightarrow> bool" where
  "is_delimiter c \<longleftrightarrow>
     c = CHR '' '' \<or> c = CHR 0x09 \<or> c = CHR 0x0A \<or> c = CHR 0x0D \<or>
     c = CHR '','' \<or> c = CHR '']'' \<or> c = CHR ''}''"

function parsePrimitive_loop :: "byte list \<Rightarrow> Parser \<Rightarrow> Parser" where
  "parsePrimitive_loop json p =
     (if pos p < length json then
        (if is_delimiter (json ! pos p) then p
         else parsePrimitive_loop json (p\<lparr>pos := pos p + 1\<rparr>))
      else p)"
  by pat_completeness auto
termination
  by (relation "measure (\<lambda>(json, p). length json - pos p)") auto

definition parsePrimitive :: "byte list \<Rightarrow> Parser \<Rightarrow> error + Parser" where
  "parsePrimitive json p =
     (let tok = \<lparr>Type = Primitive, Start = int (pos p), End = -1, Size = 0,
                 ParentIdx = toksuper p\<rparr>;
          p1 = parsePrimitive_loop json p;
          tok1 = tok\<lparr>End := int (pos p1)\<rparr>
      in if End tok1 = Start tok1 then Inl EmptyPrimitive
         else allocToken tok1 p1)"

section \<open>The scanner\<close>

text \<open>
  The arms of the \<open>switch\<close> in the dispatch loop of \<open>Parse\<close> that touch the token array.
  \<open>case '{', '['\<close>: allocate a container token and make it the current container.
\<close>

definition case_open :: "byte \<Rightarrow> Parser \<Rightarrow> error + Parser" where
  "case_open c p =
     (let tok = \<lparr>Type = (if c = CHR ''{'' then Object else Array),
                 Start = int (pos p), End = -1, Size = 0, ParentIdx = toksuper p\<rparr>
      in case allocToken tok p of
           Inl e \<Rightarrow> Inl e
         | Inr p' \<Rightarrow> Inr (p'\<lparr>toksuper := int (toknext p') - 1, pos := pos p' + 1\<rparr>))"

text \<open>
  \<open>case '}', ']'\<close>: close the current container, if there is one, and make its parent
  the current container.
\<close>

definition case_close :: "Parser \<Rightarrow> error + Parser" where
  "case_close p =
     (if toksuper p \<noteq> -1 then
        (if 0 \<le> toksuper p \<and> nat (toksuper p) < length (tokens p) then
           let s = nat (toksuper p);
               ts1 = (tokens p)[s := (tokens p ! s)\<lparr>End := int (pos p) + 1\<rparr>]
           in Inr (p\<lparr>tokens := ts1, toksuper := ParentIdx (ts1 ! s), pos := pos p + 1\<rparr>)
         else Inl Panic)
      else Inr (p\<lparr>pos := pos p + 1\<rparr>))"

text \<open>\<open>case ','\<close>: leave a current token that is not a container.\<close>

definition case_comma :: "Parser \<Rightarrow> error + Parser" where
  "case_comma p =
     (if toksuper p \<noteq> -1 then
        (if 0 \<le> toksuper p \<and> nat (toksuper p) < length (tokens p) then
           (if Type (tokens p ! nat (toksuper p)) \<noteq> Array
               \<and> Type (tokens p ! nat (toksuper p)) \<noteq> Object
            then Inr (p\<lparr>toksuper := ParentIdx (tokens p ! nat (toksuper p)),
                        pos := pos p + 1\<rparr>)
            else Inr (p\<lparr>pos := pos p + 1\<rparr>))
         else Inl Panic)
      else Inr (p\<lparr>pos := pos p + 1\<rparr>))"

text \<open>
  One iteration of the dispatch loop, at a position inside the buffer.  The arms for
  white space and for the colon only advance the position.
\<close>

definition Parse_step :: "byte list \<Rightarrow> Parser \<Rightarrow> error + Parser" where
  "Parse_step json p =
     (let c = json ! pos p in
      if c = CHR ''{'' \<or> c = CHR ''['' then case_open c p
      else if c = CHR ''}'' \<or> c = CHR '']'' then case_close p
      else if c = CHR 0x22 then parseString json p
      else if c = CHR 0x09 \<or> c = CHR 0x0D \<or> c = CHR 0x0A \<or> c = CHR '' '' then
        Inr (p\<lparr>pos := pos p + 1\<rparr>)
      else if c = CHR '':'' then Inr (p\<lparr>pos := pos p + 1\<rparr>)
      else if c = CHR '','' then case_comma p
      else parsePrimitive json p)"

text \<open>Every iteration of the dispatch loop moves the position forward.\<close>

declare parseString_loop.simps [simp del]

declare parsePrimitive_loop.simps [simp del]

lemma allocToken_pos: "allocToken tok p = Inr p' \<Longrightarrow> pos p' = pos p"
  by (auto simp: allocToken_def Let_def split: if_splits)

lemma parseString_loop_pos:
  "parseString_loop json tok p = Inr p' \<Longrightarrow> pos p < pos p'"
proof (induction json tok p rule: parseString_loop.induct)
  case (1 json tok p)
  show ?case
  proof (cases "pos p < length json")
    case False
    with "1.prems" show ?thesis by (simp add: parseString_loop.simps [of json tok p])
  next
    case inb: True
    show ?thesis
    proof (cases "json ! pos p = CHR 0x22")
      case True
      with inb "1.prems" show ?thesis
        by (auto simp: parseString_loop.simps [of json tok p] split: sum.splits
                 dest: allocToken_pos)
    next
      case nq: False
      show ?thesis
      proof (cases "json ! pos p = CHR 0x5C \<and> pos p + 1 < length json")
        case True
        with inb nq "1.prems" have "parseString_loop json tok (p\<lparr>pos := pos p + 2\<rparr>) = Inr p'"
          by (simp add: parseString_loop.simps [of json tok p])
        with "1.IH"(1) [OF inb refl nq True] show ?thesis by simp
      next
        case False
        with inb nq "1.prems" have "parseString_loop json tok (p\<lparr>pos := pos p + 1\<rparr>) = Inr p'"
          by (auto simp: parseString_loop.simps [of json tok p] split: if_splits)
        with "1.IH"(2) [OF inb refl nq False] show ?thesis by simp
      qed
    qed
  qed
qed

lemma parsePrimitive_loop_pos: "pos p \<le> pos (parsePrimitive_loop json p)"
proof (induction json p rule: parsePrimitive_loop.induct)
  case (1 json p)
  show ?case
  proof (cases "pos p < length json \<and> \<not> is_delimiter (json ! pos p)")
    case True
    with "1.IH" show ?thesis by (simp add: parsePrimitive_loop.simps [of json p])
  next
    case False
    then show ?thesis by (auto simp: parsePrimitive_loop.simps [of json p])
  qed
qed

lemma parsePrimitive_pos: "parsePrimitive json p = Inr p' \<Longrightarrow> pos p < pos p'"
  using parsePrimitive_loop_pos [of p json]
  by (auto simp: parsePrimitive_def Let_def split: if_splits dest!: allocToken_pos)

lemma parseString_pos: "parseString json p = Inr p' \<Longrightarrow> pos p < pos p'"
  by (auto simp: parseString_def Let_def dest!: parseString_loop_pos)

lemma case_open_pos: "case_open c p = Inr p' \<Longrightarrow> pos p < pos p'"
  by (auto simp: case_open_def Let_def split: sum.splits dest: allocToken_pos)

lemma case_close_pos: "case_close p = Inr p' \<Longrightarrow> pos p < pos p'"
  by (auto simp: case_close_def Let_def split: if_splits)

lemma case_comma_pos: "case_comma p = Inr p' \<Longrightarrow> pos p < pos p'"
  by (auto simp: case_comma_def split: if_splits)

lemma Parse_step_pos: "Parse_step json p = Inr p' \<Longrightarrow> pos p < pos p'"
  unfolding Parse_step_def Let_def
  by (auto split: if_splits
           dest: case_open_pos case_close_pos case_comma_pos parseString_pos parsePrimitive_pos)

text \<open>The dispatch loop \<open>for p.pos < len(json)\<close>.\<close>

function Parse_loop :: "byte list \<Rightarrow> Parser \<Rightarrow> error + Parser" where
  "Parse_loop json p =
     (if pos p < length json then
        (case Parse_step json p of
           Inl e \<Rightarrow> Inl e
         | Inr p' \<Rightarrow> Parse_loop json p')
      else Inr p)"
  by pat_completeness auto
termination
proof (relation "measure (\<lambda>(json, p). length json - pos p)")
  show "wf (measure (\<lambda>(json, p). length json - pos p))" by simp
next
  fix json :: "byte list" and p p' :: Parser
  assume "pos p < length json" and "Parse_step json p = Inr p'"
  then show "((json, p'), (json, p)) \<in> measure (\<lambda>(json, p). length json - pos p)"
    using Parse_step_pos [of json p p'] by simp
qed

declare Parse_loop.simps [simp del]

text \<open>
  The post-loop normalization \<open>for i := range p.tokens\<close>: it visits every slot of the
  array, also the unused ones.
\<close>

definition close_open_tokens :: "nat \<Rightarrow> Token list \<Rightarrow> Token list" where
  "close_open_tokens n ts =
     map (\<lambda>t. if End t = -1 \<and> Start t \<noteq> -1 then t\<lparr>End := int n\<rparr> else t) ts"

text \<open>
  \<open>Parse\<close>: reset the cursors, run the loop, normalize, then the check for unclosed
  structures.  On success the result is the token count together with the parser as
  the call leaves it.
\<close>

definition Parse :: "byte list \<Rightarrow> Parser \<Rightarrow> error + (nat \<times> Parser)" where
  "Parse json p =
     (case Parse_loop json (p\<lparr>pos := 0, toknext := 0, toksuper := -1\<rparr>) of
        Inl e \<Rightarrow> Inl e
      | Inr p1 \<Rightarrow>
          let p2 = p1\<lparr>tokens := close_open_tokens (length json) (tokens p1)\<rparr> in
          if toksuper p2 \<noteq> -1 then Inl UnclosedContainer
          else Inr (toknext p2, p2))"

text \<open>
  The sequence \<open>p := NewParser(numTokens); _, err = p.Parse(json); return p.Tokens()\<close>,
  which is the body of \<open>ParseStream\<close> after the read and the small-input branch of
  \<open>ParseParallel\<close>, and what each worker runs on its chunk.
\<close>

definition parseBuffer :: "int \<Rightarrow> byte list \<Rightarrow> error + Token list" where
  "parseBuffer numTokens json =
     (case NewParser numTokens of
        Inl e \<Rightarrow> Inl e
      | Inr p \<Rightarrow>
          (case Parse json p of
             Inl e \<Rightarrow> Inl e
           | Inr (n, p') \<Rightarrow> Inr (Tokens p')))"

section \<open>Chunked driver and streaming adapter\<close>

text \<open>
  The body of one worker goroutine of \<open>ParseParallel\<close>: a private parser of the full
  capacity, one scan of the chunk, and the used tokens or the error.
\<close>

definition worker :: "int \<Rightarrow> byte list \<Rightarrow> error + Token list" where
  "worker numTokens chunk =
     (case NewParser numTokens of
        Inl e \<Rightarrow> Inl e
      | Inr p \<Rightarrow>
          (case Parse chunk p of
             Inl e \<Rightarrow> Inl e
           | Inr (n, p') \<Rightarrow> Inr (Tokens p')))"

text \<open>The Go slice expression \<open>json[start:end]\<close> for \<open>start \<le> end \<le> len(json)\<close>.\<close>

definition slice :: "byte list \<Rightarrow> nat \<Rightarrow> nat \<Rightarrow> byte list" where
  "slice json start end' = take (end' - start) (drop start json)"

text \<open>
  \<open>ParseParallel\<close>.  Two things come from the environment and are parameters here:
  \<open>numCPU\<close> is the value of \<open>runtime.NumCPU()\<close>, and \<open>finished\<close> lists worker indices in
  the order in which the goroutines complete, which decides the error that is first in
  the channel \<open>errs\<close> (workers not listed complete afterwards, in index order).  A
  buffer shorter than 512 bytes is scanned by one parser on the calling goroutine.
\<close>

definition ParseParallel :: "nat \<Rightarrow> nat list \<Rightarrow> byte list \<Rightarrow> int \<Rightarrow> error + Token list" where
  "ParseParallel numCPU finished json numTokens =
     (if length json < 512 then
        (case NewParser numTokens of
           Inl e \<Rightarrow> Inl e
         | Inr p \<Rightarrow>
             (case Parse json p of
                Inl e \<Rightarrow> Inl e
              | Inr (n, p') \<Rightarrow> Inr (Tokens p')))
      else
        let numWorkers0 = (if numCPU > 4 then 4 else numCPU) in
        if numWorkers0 = 0 then Inl Panic
        else
          let chunkSize0 = length json div numWorkers0;
              chunkSize = (if chunkSize0 = 0 then length json else chunkSize0);
              numWorkers = (if chunkSize0 = 0 then 1 else numWorkers0);
              results =
                map (\<lambda>i. let start = i * chunkSize;
                             end' = (if i = numWorkers - 1 then length json
                                     else start + chunkSize)
                         in worker numTokens (slice json start end'))
                    [0..<numWorkers];
              completion = filter (\<lambda>i. i < numWorkers) finished @ [0..<numWorkers];
              errs = concat (map (\<lambda>i. case results ! i of Inl e \<Rightarrow> [e] | Inr ts \<Rightarrow> [])
                                 completion)
          in case errs of
               e # rest \<Rightarrow> Inl e
             | [] \<Rightarrow> Inr (concat (map (\<lambda>r. case r of Inl e \<Rightarrow> [] | Inr ts \<Rightarrow> ts) results)))"

text \<open>
  The byte source of \<open>ParseStream\<close> is an \<open>io.Reader\<close>, which is outside the package: a
  reader is modelled by what \<open>io.ReadAll\<close> gets from it, the bytes and whether the read
  ends in an error.
\<close>

record Reader =
  content :: "byte list"
  read_fails :: bool

definition ReadAll :: "Reader \<Rightarrow> error + byte list" where
  "ReadAll r = (if read_fails r then Inl SourceReadError else Inr (content r))"

definition ParseStream :: "Reader \<Rightarrow> int \<Rightarrow> error + Token list" where
  "ParseStream r numTokens =
     (case ReadAll r of
        Inl e \<Rightarrow> Inl e
      | Inr json \<Rightarrow>
          (case NewParser numTokens of
             Inl e \<Rightarrow> Inl e
           | Inr p \<Rightarrow>
               (case Parse json p of
                  Inl e \<Rightarrow> Inl e
                | Inr (n, p') \<Rightarrow> Inr (Tokens p'))))"

section \<open>The earlier revision of the scanner\<close>

text \<open>
  The repository holds two revisions of the tokenizer.  The definitions above follow the
  current one, which has the \<open>Overflow\<close>, \<open>EmptyPrimitive\<close> and unclosed-container errors.
  The definitions of this section follow the earlier one (\<open>jsmn-go/jsmn.go\<close> without
  those checks), as far as its scanner differs; the arms for closing brackets and for
  the comma, the primitive loop and the normalization are the same code.
\<close>

text \<open>
  \<open>allocToken\<close> of the earlier revision has no capacity check: the store into
  \<open>p.tokens[p.toknext]\<close> panics when the array is full.
\<close>

definition allocToken_old :: "Token \<Rightarrow> Parser \<Rightarrow> error + Parser" where
  "allocToken_old tok p =
     (if toknext p < length (tokens p) then
        let ts1 = (tokens p)[toknext p := tok] in
        if toksuper p \<noteq> -1 then
          (if 0 \<le> toksuper p \<and> nat (toksuper p) < length ts1 then
             let s = nat (toksuper p);
                 ts2 = ts1[s := (ts1 ! s)\<lparr>Size := Size (ts1 ! s) + 1\<rparr>]
             in Inr (p\<lparr>tokens := ts2, toknext := toknext p + 1\<rparr>)
           else Inl Panic)
        else Inr (p\<lparr>tokens := ts1, toknext := toknext p + 1\<rparr>)
      else Inl Panic)"

function parseString_loop_old :: "byte list \<Rightarrow> Token \<Rightarrow> Parser \<Rightarrow> error + Parser" where
  "parseString_loop_old json tok p =
     (if pos p < length json then
        let c = json ! pos p in
        if c = CHR 0x22 then
          (case allocToken_old (tok\<lparr>End := int (pos p)\<rparr>) p of
             Inl e \<Rightarrow> Inl e
           | Inr p' \<Rightarrow> Inr (p'\<lparr>pos := pos p' + 1\<rparr>))
        else if c = CHR 0x5C \<and> pos p + 1 < length json then
          parseString_loop_old json tok (p\<lparr>pos := pos p + 2\<rparr>)
        else parseString_loop_old json tok (p\<lparr>pos := pos p + 1\<rparr>)
      else Inl UnclosedString)"
  by pat_completeness auto
termination
  by (relation "measure (\<lambda>(json, tok, p). length json - pos p)") auto

definition parseString_old :: "byte list \<Rightarrow> Parser \<Rightarrow> error + Parser" where
  "parseString_old json p =
     (let p1 = p\<lparr>pos := pos p + 1\<rparr>;
          tok = \<lparr>Type = String, Start = int (pos p1), End = -1, Size = 0,
                 ParentIdx = toksuper p1\<rparr>
      in parseString_loop_old json tok p1)"

text \<open>\<open>parsePrimitive\<close> of the earlier revision: the same loop, no check of the span.\<close>

definition parsePrimitive_old :: "byte list \<Rightarrow> Parser \<Rightarrow> error + Parser" where
  "parsePrimitive_old json p =
     (let tok = \<lparr>Type = Primitive, Start = int (pos p), End = -1, Size = 0,
                 ParentIdx = toksuper p\<rparr>;
          p1 = parsePrimitive_loop json p
      in allocToken_old (tok\<lparr>End := int (pos p1)\<rparr>) p1)"

text \<open>
  The dispatch loop of the earlier revision.  It differs from the current one in the
  allocator and in the arm for the colon, which makes the token allocated last the
  current one: \<open>p.toksuper = p.toknext - 1\<close>.
\<close>

definition Parse_step_old :: "byte list \<Rightarrow> Parser \<Rightarrow> error + Parser" where
  "Parse_step_old json p =
     (let c = json ! pos p in
      if c = CHR ''{'' \<or> c = CHR ''['' then
        (let tok = \<lparr>Type = (if c = CHR ''{'' then Object else Array),
                    Start = int (pos p), End = -1, Size = 0, ParentIdx = toksuper p\<rparr>
         in case allocToken_old tok p of
              Inl e \<Rightarrow> Inl e
            | Inr p' \<Rightarrow> Inr (p'\<lparr>toksuper := int (toknext p') - 1, pos := pos p' + 1\<rparr>))
      else if c = CHR ''}'' \<or> c = CHR '']'' then case_close p
      else if c = CHR 0x22 then parseString_old json p
      else if c = CHR 0x09 \<or> c = CHR 0x0D \<or> c = CHR 0x0A \<or> c = CHR '' '' then
        Inr (p\<lparr>pos := pos p + 1\<rparr>)
      else if c = CHR '':'' then Inr (p\<lparr>toksuper := int (toknext p) - 1, pos := pos p + 1\<rparr>)
      else if c = CHR '','' then case_comma p
      else parsePrimitive_old json p)"

declare parseString_loop_old.simps [simp del]

lemma allocToken_old_pos: "allocToken_old tok p = Inr p' \<Longrightarrow> pos p' = pos p"
  by (auto simp: allocToken_old_def Let_def split: if_splits)

lemma parseString_loop_old_pos:
  "parseString_loop_old json tok p = Inr p' \<Longrightarrow> pos p < pos p'"
proof (induction json tok p rule: parseString_loop_old.induct)
  case (1 json tok p)
  show ?case
  proof (cases "pos p < length json")
    case False
    with "1.prems" show ?thesis by (simp add: parseString_loop_old.simps [of json tok p])
  next
    case inb: True
    show ?thesis
    proof (cases "json ! pos p = CHR 0x22")
      case True
      with inb "1.prems" show ?thesis
        by (auto simp: parseString_loop_old.simps [of json tok p] split: sum.splits
                 dest: allocToken_old_pos)
    next
      case nq: False
      show ?thesis
      proof (cases "json ! pos p = CHR 0x5C \<and> pos p + 1 < length json")
        case True
        with inb nq "1.prems"
        have "parseString_loop_old json tok (p\<lparr>pos := pos p + 2\<rparr>) = Inr p'"
          by (simp add: parseString_loop_old.simps [of json tok p])
        with "1.IH"(1) [OF inb refl nq True] show ?thesis by simp
      next
        case False
        with inb nq "1.prems"
        have "parseString_loop_old json tok (p\<lparr>pos := pos p + 1\<rparr>) = Inr p'"
          by (auto simp: parseString_loop_old.simps [of json tok p] split: if_splits)
        with "1.IH"(2) [OF inb refl nq False] show ?thesis by simp
      qed
    qed
  qed
qed

lemma Parse_step_old_pos:
  assumes "pos p < length json" "Parse_step_old json p = Inr p'"
  shows "pos p < pos p'"
proof (cases "is_delimiter (json ! pos p)")
  case True
  with assms(2) show ?thesis
    unfolding Parse_step_old_def Let_def is_delimiter_def
    by (auto split: if_splits dest: case_close_pos case_comma_pos)
next
  case False
  have "parsePrimitive_loop json p = parsePrimitive_loop json (p\<lparr>pos := pos p + 1\<rparr>)"
    using assms(1) False by (simp add: parsePrimitive_loop.simps [of json p])
  with parsePrimitive_loop_pos [of "p\<lparr>pos := pos p + 1\<rparr>" json]
  have adv: "pos p < pos (parsePrimitive_loop json p)" by simp
  have prim: "parsePrimitive_old json p = Inr p' \<Longrightarrow> pos p < pos p'"
    using adv
    by (auto simp: parsePrimitive_old_def Let_def dest: allocToken_old_pos)
  from assms(2) show ?thesis
    unfolding Parse_step_old_def Let_def
    by (auto split: if_splits sum.splits
             dest: allocToken_old_pos case_close_pos case_comma_pos prim
                   parseString_loop_old_pos simp: parseString_old_def)
qed

function Parse_loop_old :: "byte list \<Rightarrow> Parser \<Rightarrow> error + Parser" where
  "Parse_loop_old json p =
     (if pos p < length json then
        (case Parse_step_old json p of
           Inl e \<Rightarrow> Inl e
         | Inr p' \<Rightarrow> Parse_loop_old json p')
      else Inr p)"
  by pat_completeness auto
termination
proof (relation "measure (\<lambda>(json, p). length json - pos p)")
  show "wf (measure (\<lambda>(json, p). length json - pos p))" by simp
next
  fix json :: "byte list" and p p' :: Parser
  assume "pos p < length json" and "Parse_step_old json p = Inr p'"
  then show "((json, p'), (json, p)) \<in> measure (\<lambda>(json, p). length json - pos p)"
    using Parse_step_old_pos [of p json p'] by simp
qed

declare Parse_loop_old.simps [simp del]

text \<open>\<open>Parse\<close> of the earlier revision: no check for an unclosed container at the end.\<close>

definition Parse_old :: "byte list \<Rightarrow> Parser \<Rightarrow> error + (nat \<times> Parser)" where
  "Parse_old json p =
     (case Parse_loop_old json (p\<lparr>pos := 0, toknext := 0, toksuper := -1\<rparr>) of
        Inl e \<Rightarrow> Inl e
      | Inr p1 \<Rightarrow>
          let p2 = p1\<lparr>tokens := close_open_tokens (length json) (tokens p1)\<rparr> in
          Inr (toknext p2, p2))"

definition parseBuffer_old :: "int \<Rightarrow> byte list \<Rightarrow> error + Token list" where
  "parseBuffer_old numTokens json =
     (case NewParser numTokens of
        Inl e \<Rightarrow> Inl e
      | Inr p \<Rightarrow>
          (case Parse_old json p of
             Inl e \<Rightarrow> Inl e
           | Inr (n, p') \<Rightarrow> Inr (Tokens p')))"

section \<open>Definitions for the analysis\<close>

text \<open>
  What follows describes the scanner by its effect on the tokens handed out so far,
  \<open>Tokens p\<close>, which is what the caller sees.  \<open>push_token\<close> is the effect of a successful
  \<open>allocToken\<close> on that prefix.
\<close>

definition bump :: "Token \<Rightarrow> Token" where
  "bump t = t\<lparr>Size := Size t + 1\<rparr>"

definition push_token :: "int \<Rightarrow> Token \<Rightarrow> Token list \<Rightarrow> Token list" where
  "push_token cur tok us =
     (if cur = -1 then us @ [tok] else us[nat cur := bump (us ! nat cur)] @ [tok])"

text \<open>The current container is none or an allocated slot, and the count fits the array.\<close>

definition cursor_in_range :: "Parser \<Rightarrow> bool" where
  "cursor_in_range p \<longleftrightarrow>
     toknext p \<le> length (tokens p) \<and>
     (toksuper p = -1 \<or> (0 \<le> toksuper p \<and> nat (toksuper p) < toknext p))"

text \<open>
  The scan of a string body as the specification words it: a quote ends the string, a
  backslash followed by another byte is skipped as a unit of two bytes, any other byte
  (also a backslash that is the last byte of the buffer) is skipped alone.  The result is
  the offset of the closing quote, if there is one.
\<close>

fun closing_quote :: "byte list \<Rightarrow> nat option" where
  "closing_quote [] = None"
| "closing_quote (c # cs) =
     (if c = CHR 0x22 then Some 0
      else if c = CHR 0x5C then
        (case cs of [] \<Rightarrow> None | d # ds \<Rightarrow> map_option (\<lambda>k. k + 2) (closing_quote ds))
      else map_option Suc (closing_quote cs))"

text \<open>
  What the loop of \<open>parseString\<close> does at the closing quote found at position \<open>e\<close>:
  allocate the token with \<open>End = e\<close> and step over the quote.
\<close>

definition finish_string :: "Token \<Rightarrow> Parser \<Rightarrow> nat \<Rightarrow> error + Parser" where
  "finish_string tok p e =
     (case allocToken (tok\<lparr>End := int e\<rparr>) (p\<lparr>pos := e\<rparr>) of
        Inl err \<Rightarrow> Inl err
      | Inr p' \<Rightarrow> Inr (p'\<lparr>pos := pos p' + 1\<rparr>))"

text \<open>
  Invariants of the used tokens \<open>us\<close> and the current container \<open>cur\<close>.  \<open>cursor_ok\<close>: the
  current container is none or a used Object or Array token.  \<open>links_ok\<close>: the parent of
  each token is none or an Object or Array token of lower index.  \<open>sizes_ok\<close>: the \<open>Size\<close>
  of each token is the number of tokens that name it as parent.  \<open>prims_ok\<close>: each
  Primitive token has a span of positive length.
\<close>

definition is_container :: "Token \<Rightarrow> bool" where
  "is_container t \<longleftrightarrow> Type t = Object \<or> Type t = Array"

definition cursor_ok :: "int \<Rightarrow> Token list \<Rightarrow> bool" where
  "cursor_ok cur us \<longleftrightarrow>
     cur = -1 \<or> (0 \<le> cur \<and> nat cur < length us \<and> is_container (us ! nat cur))"

definition links_ok :: "Token list \<Rightarrow> bool" where
  "links_ok us \<longleftrightarrow>
     (\<forall>i < length us. cursor_ok (ParentIdx (us ! i)) (take i us))"

definition sizes_ok :: "Token list \<Rightarrow> bool" where
  "sizes_ok us \<longleftrightarrow>
     (\<forall>j < length us. Size (us ! j) = int (count_list (map ParentIdx us) (int j)))"

definition prims_ok :: "Token list \<Rightarrow> bool" where
  "prims_ok us \<longleftrightarrow>
     (\<forall>i < length us. Type (us ! i) = Primitive \<longrightarrow> 0 \<le> Start (us ! i) \<and> Start (us ! i) < End (us ! i))"

definition tokens_inv :: "int \<Rightarrow> Token list \<Rightarrow> bool" where
  "tokens_inv cur us \<longleftrightarrow> cursor_ok cur us \<and> links_ok us \<and> sizes_ok us \<and> prims_ok us"

text \<open>
  The three ways in which one iteration of the dispatch loop changes the current
  container and the used tokens: it allocates a token under the current container (and
  enters it, if it is a container), it closes the current container and returns to its
  parent, or it changes neither.
\<close>

inductive token_move :: "int \<times> Token list \<Rightarrow> int \<times> Token list \<Rightarrow> bool" where
  push: "ParentIdx tok = cur \<Longrightarrow> Size tok = 0 \<Longrightarrow>
         (Type tok = Primitive \<Longrightarrow> 0 \<le> Start tok \<and> Start tok < End tok) \<Longrightarrow>
         cur' = (if is_container tok then int (length us) else cur) \<Longrightarrow>
         token_move (cur, us) (cur', push_token cur tok us)"
| close: "cur \<noteq> -1 \<Longrightarrow>
         token_move (cur, us)
           (ParentIdx (us ! nat cur), us[nat cur := (us ! nat cur)\<lparr>End := e\<rparr>])"
| skip: "token_move (cur, us) (cur, us)"

text \<open>
  The invariant on the parser, and the relation between a parser and its successor
  after one iteration.
\<close>

definition parser_inv :: "Parser \<Rightarrow> bool" where
  "parser_inv p \<longleftrightarrow> toknext p \<le> length (tokens p) \<and> tokens_inv (toksuper p) (Tokens p)"

definition advances :: "Parser \<Rightarrow> Parser \<Rightarrow> bool" where
  "advances p p' \<longleftrightarrow>
     length (tokens p') = length (tokens p) \<and>
     toknext p \<le> toknext p' \<and> toknext p' \<le> Suc (toknext p) \<and>
     toknext p' \<le> length (tokens p') \<and>
     token_move (toksuper p, Tokens p) (toksuper p', Tokens p')"

text \<open>
  Two parsers agree when their cursors and their used tokens are equal; their arrays may
  differ in length and in the content of the unused slots.  \<open>sim cap rp rq\<close> relates the
  outcome \<open>rp\<close> of a piece of the scanner on one parser to the outcome \<open>rq\<close> of the same
  piece on an agreeing parser of capacity \<open>cap\<close>: where the first succeeds, the second
  succeeds with an agreeing result if the tokens fit, and reports \<open>Overflow\<close> if not.
\<close>

definition agree :: "Parser \<Rightarrow> Parser \<Rightarrow> bool" where
  "agree p q \<longleftrightarrow>
     pos p = pos q \<and> toknext p = toknext q \<and> toksuper p = toksuper q \<and> Tokens p = Tokens q"

definition sim :: "nat \<Rightarrow> error + Parser \<Rightarrow> error + Parser \<Rightarrow> bool" where
  "sim cap rp rq \<longleftrightarrow>
     (\<forall>p'. rp = Inr p' \<longrightarrow>
        (if toknext p' \<le> cap
         then \<exists>q'. rq = Inr q' \<and> agree p' q' \<and> length (tokens q') = cap
         else rq = Inl Overflow))"

text \<open>The text of a token, \<open>buffer[token.Start:token.End]\<close>.\<close>

definition token_text :: "byte list \<Rightarrow> Token \<Rightarrow> byte list" where
  "token_text json t = slice json (nat (Start t)) (nat (End t))"

section \<open>The used prefix of the token array\<close>

lemma take_store_new: "n < length xs \<Longrightarrow> take (Suc n) (xs[n := t]) = take n xs @ [t]"
  by (simp add: take_Suc_conv_app_nth)

lemma take_store_bump:
  assumes "n < length xs" "s < n"
  shows "take (Suc n) (xs[n := t, s := v]) = (take n xs)[s := v] @ [t]"
proof -
  let ?ys = "xs[n := t, s := v]"
  from assms have "take (Suc n) ?ys = take n ?ys @ [?ys ! n]"
    by (simp add: take_Suc_conv_app_nth)
  moreover from assms have "?ys ! n = t" by simp
  moreover from assms have "take n ?ys = (take n xs)[s := v]"
    by (simp add: take_update_swap list_update_beyond)
  ultimately show ?thesis by simp
qed

lemma allocToken_full: "length (tokens p) \<le> toknext p \<Longrightarrow> allocToken tok p = Inl Overflow"
  by (simp add: allocToken_def)

lemma allocToken_ok:
  assumes "cursor_in_range p" "toknext p < length (tokens p)"
  shows "\<exists>p'. allocToken tok p = Inr p' \<and> pos p' = pos p \<and> toksuper p' = toksuper p \<and>
           toknext p' = Suc (toknext p) \<and> length (tokens p') = length (tokens p) \<and>
           Tokens p' = push_token (toksuper p) tok (Tokens p)"
proof (cases "toksuper p = -1")
  case True
  with assms show ?thesis
    by (simp add: allocToken_def Tokens_def push_token_def take_store_new)
next
  case False
  with assms have s: "0 \<le> toksuper p" "nat (toksuper p) < toknext p"
    by (auto simp: cursor_in_range_def)
  with assms False show ?thesis
    by (simp add: allocToken_def Tokens_def push_token_def Let_def take_store_bump bump_def)
qed

lemma allocToken_Inr_room: "allocToken tok p = Inr p' \<Longrightarrow> toknext p < length (tokens p)"
  by (auto simp: allocToken_def split: if_splits)

section \<open>Closed forms of the sub-scanner loops\<close>

lemma finish_string_pos [simp]: "finish_string tok (p\<lparr>pos := a\<rparr>) e = finish_string tok p e"
  by (simp add: finish_string_def)

lemma parseString_loop_closed:
  "parseString_loop json tok p =
     (case closing_quote (drop (pos p) json) of
        None \<Rightarrow> Inl UnclosedString
      | Some k \<Rightarrow> finish_string tok p (pos p + k))"
proof (induction json tok p rule: parseString_loop.induct)
  case (1 json tok p)
  show ?case
  proof (cases "pos p < length json")
    case False
    then show ?thesis by (simp add: parseString_loop.simps [of json tok p])
  next
    case inb: True
    then have d: "drop (pos p) json = json ! pos p # drop (Suc (pos p)) json"
      by (simp add: Cons_nth_drop_Suc)
    show ?thesis
    proof (cases "json ! pos p = CHR 0x22")
      case True
      with inb d show ?thesis
        by (simp add: parseString_loop.simps [of json tok p] finish_string_def)
    next
      case nq: False
      show ?thesis
      proof (cases "json ! pos p = CHR 0x5C \<and> pos p + 1 < length json")
        case True
        then have d2: "drop (Suc (pos p)) json = json ! Suc (pos p) # drop (pos p + 2) json"
          by (simp add: Cons_nth_drop_Suc)
        have "parseString_loop json tok p = parseString_loop json tok (p\<lparr>pos := pos p + 2\<rparr>)"
          using inb nq True by (simp add: parseString_loop.simps [of json tok p])
        also have "\<dots> = (case closing_quote (drop (pos p + 2) json) of
                          None \<Rightarrow> Inl UnclosedString
                        | Some k \<Rightarrow> finish_string tok (p\<lparr>pos := pos p + 2\<rparr>) (pos p + 2 + k))"
          using "1.IH"(1) [OF inb refl nq True] by (simp split: option.splits)
        finally show ?thesis using True nq d d2
          by (simp add: add_ac split: option.splits)
      next
        case False
        have "parseString_loop json tok p = parseString_loop json tok (p\<lparr>pos := pos p + 1\<rparr>)"
          using inb nq False by (auto simp: parseString_loop.simps [of json tok p])
        also have "\<dots> = (case closing_quote (drop (pos p + 1) json) of
                          None \<Rightarrow> Inl UnclosedString
                        | Some k \<Rightarrow> finish_string tok (p\<lparr>pos := pos p + 1\<rparr>) (pos p + 1 + k))"
          using "1.IH"(2) [OF inb refl nq False] by (simp split: option.splits)
        finally show ?thesis using False nq d inb
          by (cases "drop (Suc (pos p)) json")
             (auto simp: add_ac split: option.splits)
      qed
    qed
  qed
qed

lemma parsePrimitive_loop_closed:
  "parsePrimitive_loop json p =
     p\<lparr>pos := pos p + length (takeWhile (\<lambda>c. \<not> is_delimiter c) (drop (pos p) json))\<rparr>"
proof (induction json p rule: parsePrimitive_loop.induct)
  case (1 json p)
  show ?case
  proof (cases "pos p < length json")
    case False
    then show ?thesis by (simp add: parsePrimitive_loop.simps [of json p])
  next
    case True
    then have d: "drop (pos p) json = json ! pos p # drop (Suc (pos p)) json"
      by (simp add: Cons_nth_drop_Suc)
    show ?thesis
    proof (cases "is_delimiter (json ! pos p)")
      case True
      with d show ?thesis by (simp add: parsePrimitive_loop.simps [of json p])
    next
      case False
      with True d "1.IH" show ?thesis by (simp add: parsePrimitive_loop.simps [of json p])
    qed
  qed
qed

section \<open>Invariants of the token array\<close>

lemma cursor_ok_mono:
  "cursor_ok cur (take i us) \<Longrightarrow> cursor_ok cur us"
  by (auto simp: cursor_ok_def)

lemma cursor_ok_take_iff:
  "i \<le> length us \<Longrightarrow> cursor_ok cur (take i us) \<longleftrightarrow>
     cur = -1 \<or> (0 \<le> cur \<and> nat cur < i \<and> is_container (us ! nat cur))"
  by (auto simp: cursor_ok_def)

lemma links_okD:
  "links_ok us \<Longrightarrow> i < length us \<Longrightarrow> ParentIdx (us ! i) \<noteq> -1 \<Longrightarrow>
     0 \<le> ParentIdx (us ! i) \<and> nat (ParentIdx (us ! i)) < i \<and> is_container (us ! nat (ParentIdx (us ! i)))"
  by (auto simp: links_ok_def cursor_ok_take_iff)

text \<open>Updating a field other than the type and the parent link.\<close>

lemma Type_nth_update:
  "Type t = Type (us ! s) \<Longrightarrow> Type (us[s := t] ! k) = Type (us ! k)"
  by (cases "k = s"; cases "s < length us") (simp_all add: list_update_beyond)

lemma ParentIdx_nth_update:
  "ParentIdx t = ParentIdx (us ! s) \<Longrightarrow> ParentIdx (us[s := t] ! k) = ParentIdx (us ! k)"
  by (cases "k = s"; cases "s < length us") (simp_all add: list_update_beyond)

lemma links_ok_update:
  assumes "links_ok us" "Type t = Type (us ! s)" "ParentIdx t = ParentIdx (us ! s)"
  shows "links_ok (us[s := t])"
  unfolding links_ok_def
proof (intro allI impI)
  fix i assume "i < length (us[s := t])"
  then have i: "i < length us" by simp
  have same: "ParentIdx (us[s := t] ! i) = ParentIdx (us ! i)"
    using assms(3) by (rule ParentIdx_nth_update)
  have cont: "\<And>k. is_container (us[s := t] ! k) = is_container (us ! k)"
    using assms(2) by (simp add: is_container_def Type_nth_update)
  from assms(1) i have "cursor_ok (ParentIdx (us ! i)) (take i us)"
    by (simp add: links_ok_def)
  then show "cursor_ok (ParentIdx (us[s := t] ! i)) (take i (us[s := t]))"
    using i cont by (auto simp: same cursor_ok_take_iff)
qed

lemma cursor_ok_update:
  assumes "cursor_ok cur us" "Type t = Type (us ! s)"
  shows "cursor_ok cur (us[s := t])"
  using assms by (auto simp: cursor_ok_def is_container_def Type_nth_update)

lemma links_ok_snoc:
  assumes "links_ok us" "cursor_ok (ParentIdx t) us"
  shows "links_ok (us @ [t])"
  unfolding links_ok_def
proof (intro allI impI)
  fix i assume "i < length (us @ [t])"
  then consider "i < length us" | "i = length us" by force
  then show "cursor_ok (ParentIdx ((us @ [t]) ! i)) (take i (us @ [t]))"
  proof cases
    case 1
    with assms(1) show ?thesis by (simp add: links_ok_def nth_append)
  next
    case 2
    with assms(2) show ?thesis by simp
  qed
qed

lemma map_field_update:
  "f t = f (us ! s) \<Longrightarrow> map f (us[s := t]) = map f us"
  by (cases "s < length us") (simp_all add: map_update list_update_beyond list_update_same_conv)

lemma cursor_ok_snoc: "cursor_ok cur us \<Longrightarrow> cursor_ok cur (us @ [t])"
  by (auto simp: cursor_ok_def nth_append)

lemma parents_below:
  assumes "links_ok us"
  shows "int (length us) \<notin> set (map ParentIdx us)"
proof
  assume "int (length us) \<in> set (map ParentIdx us)"
  then obtain i where i: "i < length us" "ParentIdx (us ! i) = int (length us)"
    by (auto simp: in_set_conv_nth)
  with links_okD [OF assms i(1)] show False by auto
qed

lemma sizes_ok_update:
  assumes "sizes_ok us" "Size t = Size (us ! s)" "ParentIdx t = ParentIdx (us ! s)"
  shows "sizes_ok (us[s := t])"
proof -
  have "\<And>j. Size (us[s := t] ! j) = Size (us ! j)"
    using assms(2) by (metis list_update_beyond nth_list_update_eq nth_list_update_neq not_le_imp_less)
  with assms show ?thesis
    by (simp add: sizes_ok_def map_field_update)
qed

lemma sizes_ok_push:
  assumes "sizes_ok us" "links_ok us" "cursor_ok cur us" "ParentIdx tok = cur" "Size tok = 0"
  shows "sizes_ok (push_token cur tok us)"
  unfolding sizes_ok_def
proof (intro allI impI)
  fix j
  let ?us' = "push_token cur tok us"
  assume "j < length ?us'"
  then have j: "j \<le> length us" by (simp add: push_token_def split: if_splits)
  have parents: "map ParentIdx ?us' = map ParentIdx us @ [cur]"
    using assms(4) by (simp add: push_token_def map_field_update bump_def)
  show "Size (?us' ! j) = int (count_list (map ParentIdx ?us') (int j))"
  proof (cases "j = length us")
    case True
    have "cur \<noteq> int (length us)" using assms(3) by (auto simp: cursor_ok_def)
    moreover have "count_list (map ParentIdx us) (int (length us)) = 0"
      using parents_below [OF assms(2)] by simp
    moreover have "?us' ! j = tok" using True by (simp add: push_token_def nth_append)
    ultimately show ?thesis using True assms(5) by (simp add: parents)
  next
    case False
    with j have jl: "j < length us" by simp
    with assms(1) have old: "Size (us ! j) = int (count_list (map ParentIdx us) (int j))"
      by (simp add: sizes_ok_def)
    show ?thesis
    proof (cases "cur = -1")
      case True
      have "?us' ! j = us ! j" using True jl by (simp add: push_token_def nth_append)
      moreover have "cur \<noteq> int j" using True by simp
      ultimately show ?thesis using old by (simp add: parents)
    next
      case False
      with assms(3) have c: "0 \<le> cur" "nat cur < length us" by (auto simp: cursor_ok_def)
      have "Size (?us' ! j) = Size (us ! j) + (if j = nat cur then 1 else 0)"
        using False jl c by (simp add: push_token_def nth_append nth_list_update bump_def)
      moreover have "(cur = int j) = (j = nat cur)" using c by auto
      ultimately show ?thesis using old by (simp add: parents)
    qed
  qed
qed

lemma prims_ok_update:
  assumes "prims_ok us" "Type t = Primitive \<Longrightarrow> 0 \<le> Start t \<and> Start t < End t"
  shows "prims_ok (us[s := t])"
  unfolding prims_ok_def
proof (intro allI impI)
  fix i assume i: "i < length (us[s := t])" and pr: "Type (us[s := t] ! i) = Primitive"
  show "0 \<le> Start (us[s := t] ! i) \<and> Start (us[s := t] ! i) < End (us[s := t] ! i)"
  proof (cases "i = s")
    case True
    with i pr assms(2) show ?thesis by simp
  next
    case False
    with i pr assms(1) show ?thesis by (simp add: prims_ok_def)
  qed
qed

lemma prims_ok_snoc:
  assumes "prims_ok us" "Type t = Primitive \<Longrightarrow> 0 \<le> Start t \<and> Start t < End t"
  shows "prims_ok (us @ [t])"
  using assms by (auto simp: prims_ok_def nth_append less_Suc_eq)

lemma prims_ok_push:
  assumes "prims_ok us" "Type tok = Primitive \<Longrightarrow> 0 \<le> Start tok \<and> Start tok < End tok"
  shows "prims_ok (push_token cur tok us)"
proof (cases "cur = -1")
  case True
  with assms show ?thesis by (simp add: push_token_def prims_ok_snoc)
next
  case False
  have "prims_ok (us[nat cur := bump (us ! nat cur)])"
  proof (cases "nat cur < length us")
    case True
    with assms(1) show ?thesis
      by (intro prims_ok_update) (auto simp: bump_def prims_ok_def)
  next
    case False
    with assms(1) show ?thesis by (simp add: list_update_beyond)
  qed
  with False assms(2) show ?thesis by (simp add: push_token_def prims_ok_snoc)
qed

lemma links_ok_push:
  assumes "links_ok us" "cursor_ok cur us" "ParentIdx tok = cur"
  shows "links_ok (push_token cur tok us)"
proof -
  have 1: "links_ok (us[nat cur := bump (us ! nat cur)])"
    using assms(1) by (rule links_ok_update) (simp_all add: bump_def)
  have 2: "cursor_ok cur (us[nat cur := bump (us ! nat cur)])"
    using assms(2) by (rule cursor_ok_update) (simp add: bump_def)
  show ?thesis
    using assms 1 2 by (auto simp: push_token_def intro: links_ok_snoc)
qed

lemma cursor_ok_push_same:
  assumes "cursor_ok cur us"
  shows "cursor_ok cur (push_token cur tok us)"
proof -
  have "cursor_ok cur (us[nat cur := bump (us ! nat cur)])"
    using assms by (rule cursor_ok_update) (simp add: bump_def)
  with assms show ?thesis by (auto simp: push_token_def intro: cursor_ok_snoc)
qed

lemma cursor_ok_push_new:
  assumes "is_container tok"
  shows "cursor_ok (int (length us)) (push_token cur tok us)"
  using assms by (simp add: cursor_ok_def push_token_def nth_append)

lemma tokens_inv_move:
  assumes "token_move (cur, us) (cur', us')" "tokens_inv cur us"
  shows "tokens_inv cur' us'"
  using assms
proof (cases rule: token_move.cases)
  case (push tok)
  from assms(2) have inv: "cursor_ok cur us" "links_ok us" "sizes_ok us" "prims_ok us"
    by (simp_all add: tokens_inv_def)
  have "cursor_ok cur' us'"
    using push inv(1) by (auto simp: cursor_ok_push_same cursor_ok_push_new)
  moreover have "links_ok us'" using push inv by (simp add: links_ok_push)
  moreover have "sizes_ok us'" using push inv by (simp add: sizes_ok_push)
  moreover have "prims_ok us'" using push inv by (simp add: prims_ok_push)
  ultimately show ?thesis by (simp add: tokens_inv_def)
next
  case (close e)
  from assms(2) have inv: "cursor_ok cur us" "links_ok us" "sizes_ok us" "prims_ok us"
    by (simp_all add: tokens_inv_def)
  from inv(1) close(3) have c: "0 \<le> cur" "nat cur < length us" "is_container (us ! nat cur)"
    by (auto simp: cursor_ok_def)
  let ?t = "(us ! nat cur)\<lparr>End := e\<rparr>"
  have "cursor_ok (ParentIdx (us ! nat cur)) us"
    using inv(2) c(2) by (auto simp: links_ok_def intro: cursor_ok_mono)
  then have "cursor_ok cur' us'" using close by (auto intro: cursor_ok_update)
  moreover have "links_ok us'" using close inv(2) by (auto intro: links_ok_update)
  moreover have "sizes_ok us'" using close inv(3) by (auto intro: sizes_ok_update)
  moreover have "prims_ok us'"
    using close inv(4) c(3) by (auto intro!: prims_ok_update simp: is_container_def)
  ultimately show ?thesis by (simp add: tokens_inv_def)
next
  case skip
  with assms(2) show ?thesis by simp
qed

section \<open>The scanner preserves the invariants\<close>

lemma Tokens_length: "toknext p \<le> length (tokens p) \<Longrightarrow> length (Tokens p) = toknext p"
  by (simp add: Tokens_def)

lemma Tokens_nth: "i < toknext p \<Longrightarrow> Tokens p ! i = tokens p ! i"
  by (simp add: Tokens_def)

lemma Tokens_pos [simp]: "Tokens (p\<lparr>pos := a\<rparr>) = Tokens p"
  by (simp add: Tokens_def)

lemma Tokens_toksuper [simp]: "Tokens (p\<lparr>toksuper := a\<rparr>) = Tokens p"
  by (simp add: Tokens_def)

lemma cursor_in_range_pos [simp]: "cursor_in_range (p\<lparr>pos := a\<rparr>) = cursor_in_range p"
  by (simp add: cursor_in_range_def)

lemma parser_inv_range: "parser_inv p \<Longrightarrow> cursor_in_range p"
  by (auto simp: parser_inv_def tokens_inv_def cursor_ok_def cursor_in_range_def Tokens_length)

lemma parser_inv_cursor:
  "parser_inv p \<Longrightarrow> toksuper p \<noteq> -1 \<Longrightarrow>
     0 \<le> toksuper p \<and> nat (toksuper p) < toknext p \<and> nat (toksuper p) < length (tokens p) \<and>
     is_container (tokens p ! nat (toksuper p))"
  by (auto simp: parser_inv_def tokens_inv_def cursor_ok_def Tokens_length Tokens_nth)

lemma allocToken_effect:
  assumes "cursor_in_range p" "allocToken tok p = Inr p'"
  shows "pos p' = pos p \<and> toksuper p' = toksuper p \<and> toknext p' = Suc (toknext p) \<and>
         length (tokens p') = length (tokens p) \<and> toknext p' \<le> length (tokens p') \<and>
         Tokens p' = push_token (toksuper p) tok (Tokens p)"
  using allocToken_ok [OF assms(1) allocToken_Inr_room [OF assms(2)], of tok] assms(2)
        allocToken_Inr_room [OF assms(2)]
  by auto

lemma case_open_advances:
  assumes "parser_inv p" "case_open c p = Inr p'"
  shows "advances p p'"
proof -
  let ?tok = "\<lparr>Type = (if c = CHR ''{'' then Object else Array),
               Start = int (pos p), End = -1, Size = 0, ParentIdx = toksuper p\<rparr>"
  from assms(2) obtain p1 where a: "allocToken ?tok p = Inr p1"
    and p': "p' = p1\<lparr>toksuper := int (toknext p1) - 1, pos := pos p1 + 1\<rparr>"
    by (auto simp: case_open_def Let_def split: sum.splits)
  note e = allocToken_effect [OF parser_inv_range [OF assms(1)] a]
  have len: "length (Tokens p) = toknext p"
    using assms(1) by (simp add: parser_inv_def Tokens_length)
  have "token_move (toksuper p, Tokens p) (int (length (Tokens p)), push_token (toksuper p) ?tok (Tokens p))"
    by (rule token_move.push) (simp_all add: is_container_def split: if_splits)
  then show ?thesis using e len by (simp add: advances_def p')
qed

lemma case_close_advances:
  assumes "parser_inv p" "case_close p = Inr p'"
  shows "advances p p'"
proof (cases "toksuper p = -1")
  case True
  with assms(2) have "p' = p\<lparr>pos := pos p + 1\<rparr>" by (auto simp: case_close_def)
  with assms(1) show ?thesis by (simp add: advances_def parser_inv_def token_move.skip)
next
  case False
  note c = parser_inv_cursor [OF assms(1) False]
  let ?s = "nat (toksuper p)"
  let ?e = "int (pos p) + 1"
  from assms(2) False c
  have p': "p' = p\<lparr>tokens := (tokens p)[?s := (tokens p ! ?s)\<lparr>End := ?e\<rparr>],
                     toksuper := ParentIdx (tokens p ! ?s), pos := pos p + 1\<rparr>"
    by (simp add: case_close_def Let_def)
  have T: "Tokens p' = (Tokens p)[?s := (Tokens p ! ?s)\<lparr>End := ?e\<rparr>]"
    using c by (simp add: p' Tokens_def take_update_swap)
  have "token_move (toksuper p, Tokens p)
          (ParentIdx (Tokens p ! ?s), (Tokens p)[?s := (Tokens p ! ?s)\<lparr>End := ?e\<rparr>])"
    using False by (rule token_move.close)
  moreover have "toksuper p' = ParentIdx (Tokens p ! ?s)" using c by (simp add: p' Tokens_nth)
  ultimately show ?thesis using assms(1) T by (simp add: advances_def p' parser_inv_def)
qed

lemma case_comma_advances:
  assumes "parser_inv p" "case_comma p = Inr p'"
  shows "advances p p'"
proof -
  have "p' = p\<lparr>pos := pos p + 1\<rparr>"
  proof (cases "toksuper p = -1")
    case True
    with assms(2) show ?thesis by (auto simp: case_comma_def)
  next
    case False
    from parser_inv_cursor [OF assms(1) False] assms(2) False show ?thesis
      by (auto simp: case_comma_def is_container_def split: if_splits)
  qed
  with assms(1) show ?thesis by (simp add: advances_def parser_inv_def token_move.skip)
qed

lemma skip_advances:
  "parser_inv p \<Longrightarrow> advances p (p\<lparr>pos := a\<rparr>)"
  by (simp add: advances_def parser_inv_def token_move.skip)

lemma parseString_eq:
  "parseString json p =
     (case closing_quote (drop (Suc (pos p)) json) of
        None \<Rightarrow> Inl UnclosedString
      | Some k \<Rightarrow>
          finish_string \<lparr>Type = String, Start = int (pos p) + 1, End = -1, Size = 0,
                         ParentIdx = toksuper p\<rparr> p (pos p + 1 + k))"
  by (simp add: parseString_def parseString_loop_closed Let_def add_ac split: option.splits)

lemma finish_string_advances:
  assumes "parser_inv p" "finish_string tok p e = Inr p'"
          "ParentIdx tok = toksuper p" "Size tok = 0" "Type tok = String"
  shows "advances p p'"
proof -
  from assms(2) obtain p1 where a: "allocToken (tok\<lparr>End := int e\<rparr>) (p\<lparr>pos := e\<rparr>) = Inr p1"
    and p': "p' = p1\<lparr>pos := pos p1 + 1\<rparr>"
    by (auto simp: finish_string_def split: sum.splits)
  have "cursor_in_range (p\<lparr>pos := e\<rparr>)" using parser_inv_range [OF assms(1)] by simp
  note e = allocToken_effect [OF this a]
  have "token_move (toksuper p, Tokens p)
          (toksuper p, push_token (toksuper p) (tok\<lparr>End := int e\<rparr>) (Tokens p))"
    by (rule token_move.push) (use assms in \<open>simp_all add: is_container_def\<close>)
  then show ?thesis using e by (simp add: advances_def p')
qed

lemma parseString_advances:
  assumes "parser_inv p" "parseString json p = Inr p'"
  shows "advances p p'"
  using assms(2) unfolding parseString_eq
  by (auto split: option.splits intro!: finish_string_advances [OF assms(1)])

lemma parsePrimitive_advances:
  assumes "parser_inv p" "parsePrimitive json p = Inr p'"
  shows "advances p p'"
proof -
  let ?p1 = "parsePrimitive_loop json p"
  let ?tok = "\<lparr>Type = Primitive, Start = int (pos p), End = int (pos ?p1), Size = 0,
               ParentIdx = toksuper p\<rparr>"
  from assms(2) have ne: "int (pos ?p1) \<noteq> int (pos p)" and a: "allocToken ?tok ?p1 = Inr p'"
    by (auto simp: parsePrimitive_def Let_def split: if_splits)
  have p1: "?p1 = p\<lparr>pos := pos ?p1\<rparr>"
    by (subst parsePrimitive_loop_closed) (simp add: parsePrimitive_loop_closed)
  have "cursor_in_range ?p1"
    by (subst p1) (use parser_inv_range [OF assms(1)] in simp)
  note e = allocToken_effect [OF this a]
  have same: "toksuper ?p1 = toksuper p" "Tokens ?p1 = Tokens p" "toknext ?p1 = toknext p"
             "tokens ?p1 = tokens p"
    by (subst p1, simp add: Tokens_def)+
  have lt: "int (pos p) < int (pos ?p1)"
    using ne parsePrimitive_loop_pos [of p json] by simp
  have "token_move (toksuper p, Tokens p) (toksuper p, push_token (toksuper p) ?tok (Tokens p))"
    by (rule token_move.push) (use lt in \<open>simp_all add: is_container_def\<close>)
  then show ?thesis using e same by (simp add: advances_def)
qed

lemma Parse_step_advances:
  assumes "parser_inv p" "Parse_step json p = Inr p'"
  shows "advances p p'"
  using assms(2) unfolding Parse_step_def Let_def
  by (auto split: if_splits
           intro: case_open_advances case_close_advances case_comma_advances
                  parseString_advances parsePrimitive_advances skip_advances assms(1))

lemma advances_inv:
  assumes "parser_inv p" "advances p p'"
  shows "parser_inv p'"
  using assms tokens_inv_move [of "toksuper p" "Tokens p" "toksuper p'" "Tokens p'"]
  by (simp add: parser_inv_def advances_def)

lemma Parse_loop_inv:
  "parser_inv p \<Longrightarrow> Parse_loop json p = Inr p' \<Longrightarrow>
     parser_inv p' \<and> toknext p \<le> toknext p' \<and> length (tokens p') = length (tokens p)"
proof (induction json p rule: Parse_loop.induct)
  case (1 json p)
  show ?case
  proof (cases "pos p < length json")
    case False
    with "1.prems" show ?thesis by (simp add: Parse_loop.simps [of json p])
  next
    case True
    with "1.prems"(2) obtain p1 where s: "Parse_step json p = Inr p1"
      and l: "Parse_loop json p1 = Inr p'"
      by (auto simp: Parse_loop.simps [of json p] split: sum.splits)
    note adv = Parse_step_advances [OF "1.prems"(1) s]
    from "1.IH" [OF True s advances_inv [OF "1.prems"(1) adv] l] adv
    show ?thesis by (simp add: advances_def)
  qed
qed

lemma parser_inv_reset: "parser_inv (p\<lparr>pos := 0, toknext := 0, toksuper := -1\<rparr>)"
  by (simp add: parser_inv_def tokens_inv_def Tokens_def cursor_ok_def links_ok_def
                sizes_ok_def prims_ok_def)

lemma close_open_fields:
  assumes "i < length us"
  shows "Type (close_open_tokens n us ! i) = Type (us ! i)"
    and "ParentIdx (close_open_tokens n us ! i) = ParentIdx (us ! i)"
    and "Size (close_open_tokens n us ! i) = Size (us ! i)"
    and "Start (close_open_tokens n us ! i) = Start (us ! i)"
    and "End (us ! i) \<noteq> -1 \<Longrightarrow> End (close_open_tokens n us ! i) = End (us ! i)"
  using assms by (simp_all add: close_open_tokens_def)

lemma close_open_length [simp]: "length (close_open_tokens n us) = length us"
  by (simp add: close_open_tokens_def)

lemma close_open_parents: "map ParentIdx (close_open_tokens n us) = map ParentIdx us"
  by (simp add: close_open_tokens_def)

lemma close_open_links: "links_ok us \<Longrightarrow> links_ok (close_open_tokens n us)"
  unfolding links_ok_def
  by (auto simp: cursor_ok_take_iff close_open_fields is_container_def)

lemma close_open_sizes: "sizes_ok us \<Longrightarrow> sizes_ok (close_open_tokens n us)"
  by (simp add: sizes_ok_def close_open_parents close_open_fields)

lemma close_open_prims: "prims_ok us \<Longrightarrow> prims_ok (close_open_tokens n us)"
  unfolding prims_ok_def
proof (intro allI impI)
  fix i
  assume a: "\<forall>i<length us. Type (us ! i) = Primitive \<longrightarrow> 0 \<le> Start (us ! i) \<and> Start (us ! i) < End (us ! i)"
    and i: "i < length (close_open_tokens n us)"
    and t: "Type (close_open_tokens n us ! i) = Primitive"
  from i have il: "i < length us" by simp
  with t have "Type (us ! i) = Primitive" by (simp add: close_open_fields)
  with a il have b: "0 \<le> Start (us ! i)" "Start (us ! i) < End (us ! i)" by auto
  then have "End (us ! i) \<noteq> -1" by auto
  with il b show "0 \<le> Start (close_open_tokens n us ! i) \<and>
        Start (close_open_tokens n us ! i) < End (close_open_tokens n us ! i)"
    by (simp add: close_open_fields)
qed

lemma Tokens_close_open:
  "Tokens (p\<lparr>tokens := close_open_tokens n (tokens p)\<rparr>) = close_open_tokens n (Tokens p)"
  by (simp add: Tokens_def close_open_tokens_def take_map)

text \<open>What a successful \<open>Parse\<close> returns: the loop result, normalized, with no open container.\<close>

lemma Parse_InrD:
  assumes "Parse json p = Inr (n, p')"
  obtains p1 where "Parse_loop json (p\<lparr>pos := 0, toknext := 0, toksuper := -1\<rparr>) = Inr p1"
    and "p' = p1\<lparr>tokens := close_open_tokens (length json) (tokens p1)\<rparr>"
    and "toksuper p1 = -1" and "n = toknext p1"
  using assms by (auto simp: Parse_def Let_def split: sum.splits if_splits)

lemma Parse_result_inv:
  assumes "Parse json p = Inr (n, p')"
  shows "length (Tokens p') = n \<and> links_ok (Tokens p') \<and> sizes_ok (Tokens p') \<and> prims_ok (Tokens p')"
proof -
  from assms obtain p1
    where l: "Parse_loop json (p\<lparr>pos := 0, toknext := 0, toksuper := -1\<rparr>) = Inr p1"
      and p': "p' = p1\<lparr>tokens := close_open_tokens (length json) (tokens p1)\<rparr>"
      and n: "n = toknext p1"
    by (rule Parse_InrD)
  from Parse_loop_inv [OF parser_inv_reset l] have inv: "parser_inv p1" by simp
  then have "links_ok (Tokens p1)" "sizes_ok (Tokens p1)" "prims_ok (Tokens p1)"
      "length (Tokens p1) = toknext p1"
    by (simp_all add: parser_inv_def tokens_inv_def Tokens_length)
  then show ?thesis
    by (simp add: p' n Tokens_close_open close_open_links close_open_sizes close_open_prims)
qed

lemma count_list_map_filter:
  "count_list (map f xs) y = length (filter (\<lambda>x. f x = y) xs)"
  by (induction xs) simp_all

section \<open>Errors the scanner can return\<close>

lemma allocToken_errors: "allocToken tok p = Inl e \<Longrightarrow> e = Overflow \<or> e = Panic"
  by (auto simp: allocToken_def Let_def split: if_splits)

lemma case_open_errors: "case_open c p = Inl e \<Longrightarrow> e = Overflow \<or> e = Panic"
  by (auto simp: case_open_def Let_def split: sum.splits dest: allocToken_errors)

lemma case_close_errors: "case_close p = Inl e \<Longrightarrow> e = Panic"
  by (auto simp: case_close_def Let_def split: if_splits)

lemma case_comma_errors: "case_comma p = Inl e \<Longrightarrow> e = Panic"
  by (auto simp: case_comma_def split: if_splits)

lemma finish_string_errors: "finish_string tok p k = Inl e \<Longrightarrow> e = Overflow \<or> e = Panic"
  by (auto simp: finish_string_def split: sum.splits dest: allocToken_errors)

lemma parseString_errors:
  "parseString json p = Inl e \<Longrightarrow> e = UnclosedString \<or> e = Overflow \<or> e = Panic"
  unfolding parseString_eq by (auto split: option.splits dest: finish_string_errors)

text \<open>Entered at a byte that is not a delimiter, the primitive loop moves forward.\<close>

lemma parsePrimitive_loop_advances:
  assumes "pos p < length json" "\<not> is_delimiter (json ! pos p)"
  shows "pos p < pos (parsePrimitive_loop json p)"
proof -
  from assms(1) have "drop (pos p) json = json ! pos p # drop (Suc (pos p)) json"
    by (simp add: Cons_nth_drop_Suc)
  with assms(2) show ?thesis by (simp add: parsePrimitive_loop_closed)
qed

lemma parsePrimitive_errors:
  assumes "pos p < length json" "\<not> is_delimiter (json ! pos p)" "parsePrimitive json p = Inl e"
  shows "e = Overflow \<or> e = Panic"
  using parsePrimitive_loop_advances [OF assms(1,2)] assms(3)
  by (auto simp: parsePrimitive_def Let_def split: if_splits dest: allocToken_errors)

text \<open>On a delimiter the dispatch loop takes an arm other than the primitive sub-scanner.\<close>

lemma Parse_step_delimiter:
  assumes "is_delimiter (json ! pos p)"
  shows "Parse_step json p = case_close p \<or> Parse_step json p = case_comma p \<or>
         Parse_step json p = Inr (p\<lparr>pos := pos p + 1\<rparr>)"
  using assms by (auto simp: Parse_step_def is_delimiter_def Let_def)

lemma Parse_step_default:
  assumes "Parse_step json p \<noteq> case_open (json ! pos p) p" "Parse_step json p \<noteq> case_close p"
    "Parse_step json p \<noteq> parseString json p" "Parse_step json p \<noteq> Inr (p\<lparr>pos := pos p + 1\<rparr>)"
    "Parse_step json p \<noteq> case_comma p"
  shows "\<not> is_delimiter (json ! pos p) \<and> Parse_step json p = parsePrimitive json p"
  using assms by (auto simp: Parse_step_def is_delimiter_def Let_def split: if_splits)

lemma Parse_step_errors:
  assumes "pos p < length json" "Parse_step json p = Inl e"
  shows "e = UnclosedString \<or> e = Overflow \<or> e = Panic"
proof (cases "is_delimiter (json ! pos p)")
  case True
  from Parse_step_delimiter [OF True] assms(2)
  have "case_close p = Inl e \<or> case_comma p = Inl e" by auto
  then show ?thesis by (auto dest: case_close_errors case_comma_errors)
next
  case False
  with assms show ?thesis
    unfolding Parse_step_def Let_def
    by (auto split: if_splits
             dest: case_open_errors case_close_errors case_comma_errors parseString_errors
                   parsePrimitive_errors)
qed

lemma Parse_loop_errors:
  "Parse_loop json p = Inl e \<Longrightarrow> e = UnclosedString \<or> e = Overflow \<or> e = Panic"
proof (induction json p rule: Parse_loop.induct)
  case (1 json p)
  show ?case
  proof (cases "pos p < length json")
    case False
    with "1.prems" show ?thesis by (simp add: Parse_loop.simps [of json p])
  next
    case True
    show ?thesis
    proof (cases "Parse_step json p")
      case (Inl e')
      with True "1.prems" have "e' = e" by (simp add: Parse_loop.simps [of json p])
      with Parse_step_errors [OF True Inl] show ?thesis by simp
    next
      case (Inr p1)
      with True "1.prems" have "Parse_loop json p1 = Inl e"
        by (simp add: Parse_loop.simps [of json p])
      from "1.IH" [OF True Inr this] show ?thesis .
    qed
  qed
qed

lemma Parse_step_no_panic:
  assumes "parser_inv p"
  shows "Parse_step json p \<noteq> Inl Panic"
proof -
  note r = parser_inv_range [OF assms]
  have a: "\<And>tok q. cursor_in_range q \<Longrightarrow> allocToken tok q \<noteq> Inl Panic"
    by (auto simp: allocToken_def cursor_in_range_def Let_def)
  have 1: "case_open (json ! pos p) p \<noteq> Inl Panic"
    using a [OF r] by (auto simp: case_open_def Let_def split: sum.splits)
  have 2: "case_close p \<noteq> Inl Panic"
    using parser_inv_cursor [OF assms] by (auto simp: case_close_def Let_def)
  have 3: "case_comma p \<noteq> Inl Panic"
    using parser_inv_cursor [OF assms] by (auto simp: case_comma_def)
  have 4: "parseString json p \<noteq> Inl Panic"
    unfolding parseString_eq using a [of "p\<lparr>pos := k\<rparr>" for k] r
    by (auto simp: finish_string_def split: option.splits sum.splits)
  have "cursor_in_range (parsePrimitive_loop json p)"
    using r by (simp add: parsePrimitive_loop_closed cursor_in_range_def)
  from a [OF this] have 5: "parsePrimitive json p \<noteq> Inl Panic"
    by (auto simp: parsePrimitive_def Let_def)
  from 1 2 3 4 5 show ?thesis by (auto simp: Parse_step_def Let_def)
qed

lemma Parse_loop_no_panic:
  "parser_inv p \<Longrightarrow> Parse_loop json p \<noteq> Inl Panic"
proof (induction json p rule: Parse_loop.induct)
  case (1 json p)
  show ?case
  proof (cases "pos p < length json")
    case False
    then show ?thesis by (simp add: Parse_loop.simps [of json p])
  next
    case True
    show ?thesis
    proof (cases "Parse_step json p")
      case (Inl e)
      with Parse_step_no_panic [OF "1.prems", of json] True show ?thesis
        by (simp add: Parse_loop.simps [of json p])
    next
      case (Inr p1)
      from "1.IH" [OF True Inr advances_inv [OF "1.prems" Parse_step_advances [OF "1.prems" Inr]]]
      show ?thesis using True Inr by (simp add: Parse_loop.simps [of json p])
    qed
  qed
qed

lemma Parse_errors:
  "Parse json p = Inl e \<Longrightarrow> e = UnclosedString \<or> e = Overflow \<or> e = UnclosedContainer"
  using Parse_loop_errors [of json "p\<lparr>pos := 0, toknext := 0, toksuper := -1\<rparr>" e]
        Parse_loop_no_panic [OF parser_inv_reset, of json p]
  by (auto simp: Parse_def Let_def split: sum.splits if_splits)

section \<open>The closing quote, and the slots of the array\<close>

lemma closing_quote_is_quote:
  "closing_quote cs = Some k \<Longrightarrow> k < length cs \<and> cs ! k = CHR 0x22"
proof (induction cs arbitrary: k rule: closing_quote.induct)
  case 1
  then show ?case by simp
next
  case (2 c cs)
  show ?case
  proof (cases "c = CHR 0x22")
    case True
    with "2.prems" show ?thesis by simp
  next
    case nq: False
    show ?thesis
    proof (cases "c = CHR 0x5C")
      case True
      with nq "2.prems" obtain d ds k' where cs: "cs = d # ds"
        and k': "closing_quote ds = Some k'" "k = k' + 2"
        by (auto split: list.splits)
      from "2.IH"(1) [OF nq True cs k'(1)] cs k'(2) show ?thesis by simp
    next
      case False
      with nq "2.prems" obtain k' where k': "closing_quote cs = Some k'" "k = Suc k'"
        by auto
      from "2.IH"(2) [OF nq False k'(1)] k'(2) show ?thesis by simp
    qed
  qed
qed

text \<open>Without backslashes the closing quote is the first quote.\<close>

lemma closing_quote_plain:
  "CHR 0x5C \<notin> set cs \<Longrightarrow>
     closing_quote cs =
       (if CHR 0x22 \<in> set cs then Some (length (takeWhile (\<lambda>c. c \<noteq> CHR 0x22) cs)) else None)"
  by (induction cs) auto

text \<open>Slots and cursors under \<open>allocToken\<close>, with no assumption on the parser.\<close>

lemma allocToken_slot:
  assumes "allocToken tok p = Inr p'"
  shows "toksuper p' = toksuper p" and "toknext p' = Suc (toknext p)"
    and "ParentIdx (tokens p' ! toknext p) = ParentIdx tok"
    and "i \<noteq> toknext p \<Longrightarrow> ParentIdx (tokens p' ! i) = ParentIdx (tokens p ! i)"
proof -
  from assms have room: "toknext p < length (tokens p)" by (rule allocToken_Inr_room)
  from assms room show "toksuper p' = toksuper p" "toknext p' = Suc (toknext p)"
    by (auto simp: allocToken_def Let_def split: if_splits)
  from assms room show "ParentIdx (tokens p' ! toknext p) = ParentIdx tok"
    by (auto simp: allocToken_def Let_def nth_list_update split: if_splits)
  assume "i \<noteq> toknext p"
  with assms room show "ParentIdx (tokens p' ! i) = ParentIdx (tokens p ! i)"
    by (auto simp: allocToken_def Let_def nth_list_update split: if_splits)
qed

lemma allocToken_old_slots:
  "allocToken tok p = Inr p' \<Longrightarrow> i < toknext p \<Longrightarrow>
     ParentIdx (tokens p' ! i) = ParentIdx (tokens p ! i)"
  by (rule allocToken_slot(4)) simp_all

lemma parseString_slot:
  assumes "parseString json p = Inr p'"
  shows "toksuper p' = toksuper p" and "toknext p' = Suc (toknext p)"
    and "ParentIdx (tokens p' ! toknext p) = toksuper p"
  using assms unfolding parseString_eq finish_string_def
  by (auto split: option.splits sum.splits dest: allocToken_slot)

lemma Parse_step_new_slot:
  assumes "Parse_step json p = Inr p'" "toknext p' = Suc (toknext p)"
  shows "ParentIdx (tokens p' ! toknext p) = toksuper p"
proof -
  have 1: "case_open c p = Inr p' \<Longrightarrow> ?thesis" for c
    by (auto simp: case_open_def Let_def split: sum.splits dest: allocToken_slot)
  have 2: "case_close p = Inr p' \<Longrightarrow> ?thesis"
    using assms(2) by (auto simp: case_close_def Let_def split: if_splits)
  have 3: "case_comma p = Inr p' \<Longrightarrow> ?thesis"
    using assms(2) by (auto simp: case_comma_def split: if_splits)
  have 4: "parseString json p = Inr p' \<Longrightarrow> ?thesis"
    by (rule parseString_slot)
  have 5: "parsePrimitive json p = Inr p' \<Longrightarrow> ?thesis"
    by (auto simp: parsePrimitive_def Let_def parsePrimitive_loop_closed
             split: if_splits dest: allocToken_slot)
  from assms 1 2 3 4 5 show ?thesis
    unfolding Parse_step_def Let_def by (auto split: if_splits)
qed

lemma Parse_step_old_slots:
  assumes "Parse_step json p = Inr p'" "i < toknext p"
  shows "ParentIdx (tokens p' ! i) = ParentIdx (tokens p ! i)"
proof -
  have 1: "case_open c p = Inr p' \<Longrightarrow> ?thesis" for c
    using assms(2) by (auto simp: case_open_def Let_def allocToken_old_slots split: sum.splits)
  have 2: "case_close p = Inr p' \<Longrightarrow> ?thesis"
    by (auto simp: case_close_def Let_def nth_list_update split: if_splits)
  have 3: "case_comma p = Inr p' \<Longrightarrow> ?thesis"
    by (auto simp: case_comma_def split: if_splits)
  have 4: "parseString json p = Inr p' \<Longrightarrow> ?thesis"
    using assms(2) unfolding parseString_eq finish_string_def
    by (auto split: option.splits sum.splits dest: allocToken_old_slots [where i = i])
  have 5: "parsePrimitive json p = Inr p' \<Longrightarrow> ?thesis"
    using assms(2)
    by (auto simp: parsePrimitive_def Let_def parsePrimitive_loop_closed
             split: if_splits dest: allocToken_old_slots [where i = i])
  from assms 1 2 3 4 5 show ?thesis
    unfolding Parse_step_def Let_def by (auto split: if_splits)
qed

section \<open>The same scan under another capacity\<close>

lemma sim_Inl [simp]: "sim cap (Inl e) rq"
  by (simp add: sim_def)

lemma agree_range:
  "agree p q \<Longrightarrow> cursor_in_range p \<Longrightarrow> toknext q \<le> length (tokens q) \<Longrightarrow> cursor_in_range q"
  by (auto simp: agree_def cursor_in_range_def)

lemma agree_nth:
  "agree p q \<Longrightarrow> i < toknext p \<Longrightarrow> tokens p ! i = tokens q ! i"
  by (metis agree_def Tokens_nth)

lemma agree_pos: "agree p q \<Longrightarrow> agree (p\<lparr>pos := a\<rparr>) (q\<lparr>pos := a\<rparr>)"
  by (simp add: agree_def)

lemma allocToken_sim:
  assumes "agree p q" "cursor_in_range p" "toknext q \<le> length (tokens q)"
  shows "sim (length (tokens q)) (allocToken tok p) (allocToken tok q)"
  unfolding sim_def
proof (intro allI impI)
  fix p' assume a: "allocToken tok p = Inr p'"
  note e = allocToken_effect [OF assms(2) a]
  note rq = agree_range [OF assms]
  from assms(1) have same: "toknext q = toknext p" "toksuper q = toksuper p" "Tokens q = Tokens p"
    "pos q = pos p" by (simp_all add: agree_def)
  show "if toknext p' \<le> length (tokens q)
        then \<exists>q'. allocToken tok q = Inr q' \<and> agree p' q' \<and> length (tokens q') = length (tokens q)
        else allocToken tok q = Inl Overflow"
  proof (cases "toknext q < length (tokens q)")
    case True
    from allocToken_ok [OF rq True, of tok] obtain q' where q': "allocToken tok q = Inr q'"
      "pos q' = pos q" "toksuper q' = toksuper q" "toknext q' = Suc (toknext q)"
      "length (tokens q') = length (tokens q)"
      "Tokens q' = push_token (toksuper q) tok (Tokens q)" by blast
    with e same True show ?thesis by (simp add: agree_def)
  next
    case False
    with assms(3) have "length (tokens q) \<le> toknext q" by simp
    from allocToken_full [OF this] e same False show ?thesis by simp
  qed
qed

lemma sim_wrap:
  assumes "sim cap rp rq"
    and "\<And>p' q'. agree p' q' \<Longrightarrow> agree (f p') (g q')"
    and "\<And>p'. toknext (f p') = toknext p'" "\<And>q'. length (tokens (g q')) = length (tokens q')"
  shows "sim cap (case rp of Inl e \<Rightarrow> Inl e | Inr p' \<Rightarrow> Inr (f p'))
                 (case rq of Inl e \<Rightarrow> Inl e | Inr q' \<Rightarrow> Inr (g q'))"
  using assms unfolding sim_def
  by (auto split: sum.splits if_splits)

lemma case_open_sim:
  assumes "agree p q" "cursor_in_range p" "toknext q \<le> length (tokens q)"
  shows "sim (length (tokens q)) (case_open c p) (case_open c q)"
proof -
  from assms(1) have same: "pos q = pos p" "toksuper q = toksuper p" by (simp_all add: agree_def)
  show ?thesis
    unfolding case_open_def Let_def same
    by (rule sim_wrap [OF allocToken_sim [OF assms]]) (simp_all add: agree_def)
qed

lemma finish_string_sim:
  assumes "agree p q" "cursor_in_range p" "toknext q \<le> length (tokens q)"
  shows "sim (length (tokens q)) (finish_string tok p e) (finish_string tok q e)"
proof -
  have "sim (length (tokens (q\<lparr>pos := e\<rparr>)))
          (allocToken (tok\<lparr>End := int e\<rparr>) (p\<lparr>pos := e\<rparr>))
          (allocToken (tok\<lparr>End := int e\<rparr>) (q\<lparr>pos := e\<rparr>))"
    using assms by (intro allocToken_sim agree_pos) simp_all
  then have "sim (length (tokens q))
          (allocToken (tok\<lparr>End := int e\<rparr>) (p\<lparr>pos := e\<rparr>))
          (allocToken (tok\<lparr>End := int e\<rparr>) (q\<lparr>pos := e\<rparr>))" by simp
  then show ?thesis
    unfolding finish_string_def by (rule sim_wrap) (simp_all add: agree_def)
qed

lemma parseString_sim:
  assumes "agree p q" "cursor_in_range p" "toknext q \<le> length (tokens q)"
  shows "sim (length (tokens q)) (parseString json p) (parseString json q)"
proof -
  from assms(1) have same: "pos q = pos p" "toksuper q = toksuper p" by (simp_all add: agree_def)
  show ?thesis
    unfolding parseString_eq same
    by (auto split: option.splits intro: finish_string_sim [OF assms])
qed

lemma parsePrimitive_sim:
  assumes "agree p q" "cursor_in_range p" "toknext q \<le> length (tokens q)"
  shows "sim (length (tokens q)) (parsePrimitive json p) (parsePrimitive json q)"
proof -
  from assms(1) have same: "pos q = pos p" "toksuper q = toksuper p" by (simp_all add: agree_def)
  let ?e = "pos p + length (takeWhile (\<lambda>c. \<not> is_delimiter c) (drop (pos p) json))"
  let ?tok = "\<lparr>Type = Primitive, Start = int (pos p), End = int ?e, Size = 0,
               ParentIdx = toksuper p\<rparr>"
  have "sim (length (tokens (q\<lparr>pos := ?e\<rparr>)))
          (allocToken ?tok (p\<lparr>pos := ?e\<rparr>)) (allocToken ?tok (q\<lparr>pos := ?e\<rparr>))"
    using assms by (intro allocToken_sim agree_pos) simp_all
  then show ?thesis
    by (simp add: parsePrimitive_def Let_def parsePrimitive_loop_closed same)
qed

lemma case_close_sim:
  assumes "agree p q" "parser_inv p" "toknext q \<le> length (tokens q)"
  shows "sim (length (tokens q)) (case_close p) (case_close q)"
proof (cases "toksuper p = -1")
  case True
  with assms(1,3) show ?thesis by (simp add: case_close_def sim_def agree_def)
next
  case False
  note c = parser_inv_cursor [OF assms(2) False]
  from assms(1) have same: "pos q = pos p" "toksuper q = toksuper p" "toknext q = toknext p"
    "Tokens q = Tokens p" by (simp_all add: agree_def)
  let ?s = "nat (toksuper p)"
  have nth: "tokens q ! ?s = tokens p ! ?s" using agree_nth [OF assms(1)] c by simp
  have sq: "?s < length (tokens q)" using c assms(3) same by simp
  have T: "take (toknext p) ((tokens q)[?s := x]) = take (toknext p) ((tokens p)[?s := x])" for x
    using same(4) by (simp add: Tokens_def take_update_swap same(3))
  from assms(3) have cap: "toknext p \<le> length (tokens q)" by (simp add: same)
  from False c sq cap show ?thesis
    by (simp add: case_close_def Let_def sim_def agree_def same nth Tokens_def T)
qed

lemma case_comma_sim:
  assumes "agree p q" "parser_inv p" "toknext q \<le> length (tokens q)"
  shows "sim (length (tokens q)) (case_comma p) (case_comma q)"
proof (cases "toksuper p = -1")
  case True
  with assms(1,3) show ?thesis by (simp add: case_comma_def sim_def agree_def)
next
  case False
  note c = parser_inv_cursor [OF assms(2) False]
  from assms(1) have same: "pos q = pos p" "toksuper q = toksuper p" "toknext q = toknext p"
    "Tokens q = Tokens p" by (simp_all add: agree_def)
  let ?s = "nat (toksuper p)"
  have nth: "tokens q ! ?s = tokens p ! ?s" using agree_nth [OF assms(1)] c by simp
  have sq: "?s < length (tokens q)" using c assms(3) same by simp
  from assms(3) have cap: "toknext p \<le> length (tokens q)" by (simp add: same)
  from False c sq cap show ?thesis
    by (auto simp: case_comma_def sim_def agree_def same nth is_container_def)
qed

lemma skip_sim:
  assumes "agree p q" "toknext q \<le> length (tokens q)"
  shows "sim (length (tokens q)) (Inr (p\<lparr>pos := a\<rparr>)) (Inr (q\<lparr>pos := a\<rparr>))"
  using assms by (simp add: sim_def agree_def)

lemma Parse_step_sim:
  assumes "agree p q" "parser_inv p" "toknext q \<le> length (tokens q)"
  shows "sim (length (tokens q)) (Parse_step json p) (Parse_step json q)"
proof -
  from assms(1) have same: "pos q = pos p" by (simp add: agree_def)
  note r = parser_inv_range [OF assms(2)]
  show ?thesis
    unfolding Parse_step_def Let_def same
    using case_open_sim [OF assms(1) r assms(3)] case_close_sim [OF assms]
      case_comma_sim [OF assms] parseString_sim [OF assms(1) r assms(3)]
      parsePrimitive_sim [OF assms(1) r assms(3)] skip_sim [OF assms(1,3), of "pos p + 1"]
    by simp
qed

lemma Parse_loop_sim:
  "agree p q \<Longrightarrow> parser_inv p \<Longrightarrow> toknext q \<le> length (tokens q) \<Longrightarrow>
     sim (length (tokens q)) (Parse_loop json p) (Parse_loop json q)"
proof (induction json p arbitrary: q rule: Parse_loop.induct)
  case (1 json p)
  from "1.prems"(1) have same: "pos q = pos p" by (simp add: agree_def)
  show ?case
  proof (cases "pos p < length json")
    case False
    with "1.prems" same show ?thesis
      by (simp add: Parse_loop.simps [of json p] Parse_loop.simps [of json q] sim_def agree_def)
  next
    case True
    show ?thesis
    proof (cases "Parse_step json p")
      case (Inl e)
      with True show ?thesis by (simp add: Parse_loop.simps [of json p])
    next
      case (Inr p1)
      note adv = Parse_step_advances [OF "1.prems"(2) Inr]
      note inv1 = advances_inv [OF "1.prems"(2) adv]
      from Parse_step_sim [OF "1.prems", of json] Inr
      have s: "if toknext p1 \<le> length (tokens q)
               then \<exists>q1. Parse_step json q = Inr q1 \<and> agree p1 q1 \<and>
                         length (tokens q1) = length (tokens q)
               else Parse_step json q = Inl Overflow"
        by (simp add: sim_def)
      have lp: "Parse_loop json p = Parse_loop json p1"
        using True Inr by (simp add: Parse_loop.simps [of json p])
      show ?thesis
      proof (cases "toknext p1 \<le> length (tokens q)")
        case le: True
        with s obtain q1 where q1: "Parse_step json q = Inr q1" "agree p1 q1"
          "length (tokens q1) = length (tokens q)" by auto
        have lq: "Parse_loop json q = Parse_loop json q1"
          using True same q1(1) by (simp add: Parse_loop.simps [of json q])
        have "toknext q1 \<le> length (tokens q1)" using q1 le by (simp add: agree_def)
        from "1.IH" [OF True Inr q1(2) inv1 this] show ?thesis
          by (simp add: lp lq q1(3))
      next
        case False
        with s have "Parse_step json q = Inl Overflow" by simp
        then have lq: "Parse_loop json q = Inl Overflow"
          using True same by (simp add: Parse_loop.simps [of json q])
        have "\<not> toknext p' \<le> length (tokens q)" if "Parse_loop json p1 = Inr p'" for p'
          using Parse_loop_inv [OF inv1 that] False by simp
        then show ?thesis by (auto simp: sim_def lp lq)
      qed
    qed
  qed
qed

lemma agree_reset:
  "agree (p\<lparr>pos := 0, toknext := 0, toksuper := -1\<rparr>) (q\<lparr>pos := 0, toknext := 0, toksuper := -1\<rparr>)"
  by (simp add: agree_def Tokens_def)

lemma Parse_loop_capacity:
  assumes "Parse_loop json (p\<lparr>pos := 0, toknext := 0, toksuper := -1\<rparr>) = Inr p1"
  shows "if toknext p1 \<le> length (tokens q)
         then \<exists>q1. Parse_loop json (q\<lparr>pos := 0, toknext := 0, toksuper := -1\<rparr>) = Inr q1 \<and>
                   agree p1 q1
         else Parse_loop json (q\<lparr>pos := 0, toknext := 0, toksuper := -1\<rparr>) = Inl Overflow"
proof -
  let ?p0 = "p\<lparr>pos := 0, toknext := 0, toksuper := -1\<rparr>"
  let ?q0 = "q\<lparr>pos := 0, toknext := 0, toksuper := -1\<rparr>"
  have "sim (length (tokens ?q0)) (Parse_loop json ?p0) (Parse_loop json ?q0)"
    by (rule Parse_loop_sim [OF agree_reset parser_inv_reset]) simp
  with assms show ?thesis by (auto simp: sim_def)
qed

lemma Parse_loop_capacity_ok:
  assumes "Parse_loop json (p\<lparr>pos := 0, toknext := 0, toksuper := -1\<rparr>) = Inr p1"
    and "toknext p1 \<le> length (tokens q)"
  shows "\<exists>q1. Parse_loop json (q\<lparr>pos := 0, toknext := 0, toksuper := -1\<rparr>) = Inr q1 \<and>
              agree p1 q1"
  using Parse_loop_capacity [OF assms(1), of q] assms(2) by simp

lemma Parse_capacity:
  assumes "Parse json p = Inr (n, p')"
  shows "(n \<le> length (tokens q) \<longrightarrow> (\<exists>q'. Parse json q = Inr (n, q') \<and> Tokens q' = Tokens p')) \<and>
         (length (tokens q) < n \<longrightarrow> Parse json q = Inl Overflow)"
proof -
  from assms obtain p1
    where l: "Parse_loop json (p\<lparr>pos := 0, toknext := 0, toksuper := -1\<rparr>) = Inr p1"
      and p': "p' = p1\<lparr>tokens := close_open_tokens (length json) (tokens p1)\<rparr>"
      and c: "toksuper p1 = -1" and n: "n = toknext p1"
    by (rule Parse_InrD)
  note s = Parse_loop_capacity [OF l, of q]
  show ?thesis
  proof (intro conjI impI)
    assume "n \<le> length (tokens q)"
    with s n obtain q1
      where q1: "Parse_loop json (q\<lparr>pos := 0, toknext := 0, toksuper := -1\<rparr>) = Inr q1"
        "agree p1 q1" by auto
    let ?q' = "q1\<lparr>tokens := close_open_tokens (length json) (tokens q1)\<rparr>"
    from q1 c n have "Parse json q = Inr (n, ?q')"
      by (simp add: Parse_def Let_def agree_def)
    moreover from q1(2) have "Tokens ?q' = Tokens p'"
      by (simp add: p' Tokens_close_open agree_def)
    ultimately show "\<exists>q'. Parse json q = Inr (n, q') \<and> Tokens q' = Tokens p'" by blast
  next
    assume "length (tokens q) < n"
    with s n show "Parse json q = Inl Overflow" by (simp add: Parse_def)
  qed
qed

lemma parseBuffer_InrD:
  assumes "parseBuffer c json = Inr ts"
  obtains n p' where "0 \<le> c"
    and "Parse json \<lparr>pos = 0, toknext = 0, toksuper = 0,
                     tokens = replicate (nat c) zeroToken\<rparr> = Inr (n, p')"
    and "ts = Tokens p'" and "length ts = n"
proof -
  from assms have c: "0 \<le> c" by (auto simp: parseBuffer_def NewParser_def split: if_splits)
  with assms obtain n p' where run: "Parse json \<lparr>pos = 0, toknext = 0, toksuper = 0,
                     tokens = replicate (nat c) zeroToken\<rparr> = Inr (n, p')" and ts: "ts = Tokens p'"
    by (auto simp: parseBuffer_def NewParser_def split: sum.splits)
  from Parse_result_inv [OF run] ts have "length ts = n" by simp
  with c run ts show ?thesis by (rule that)
qed

lemma parseBuffer_capacity:
  assumes "parseBuffer c json = Inr ts"
  shows "(int (length ts) \<le> c' \<longrightarrow> parseBuffer c' json = Inr ts) \<and>
         (0 \<le> c' \<and> c' < int (length ts) \<longrightarrow> parseBuffer c' json = Inl Overflow)"
proof -
  from assms obtain n p' where c: "0 \<le> c"
    and run: "Parse json \<lparr>pos = 0, toknext = 0, toksuper = 0,
                     tokens = replicate (nat c) zeroToken\<rparr> = Inr (n, p')"
    and ts: "ts = Tokens p'" and n: "length ts = n"
    by (rule parseBuffer_InrD)
  let ?q = "\<lparr>pos = 0, toknext = 0, toksuper = 0, tokens = replicate (nat c') zeroToken\<rparr>"
  note cap = Parse_capacity [OF run, of ?q]
  show ?thesis
  proof (intro conjI impI)
    assume a: "int (length ts) \<le> c'"
    then have "n \<le> length (tokens ?q)" using n by simp
    with cap obtain q' where "Parse json ?q = Inr (n, q')" "Tokens q' = Tokens p'" by blast
    with a ts show "parseBuffer c' json = Inr ts"
      by (simp add: parseBuffer_def NewParser_def)
  next
    assume a: "0 \<le> c' \<and> c' < int (length ts)"
    then have "length (tokens ?q) < n" using n by auto
    with cap have "Parse json ?q = Inl Overflow" by blast
    with a show "parseBuffer c' json = Inl Overflow"
      by (simp add: parseBuffer_def NewParser_def)
  qed
qed

lemma Parse_keeps_capacity:
  assumes "Parse json p = Inr (n, p')"
  shows "length (tokens p') = length (tokens p)"
proof -
  from assms obtain p1
    where l: "Parse_loop json (p\<lparr>pos := 0, toknext := 0, toksuper := -1\<rparr>) = Inr p1"
      and p': "p' = p1\<lparr>tokens := close_open_tokens (length json) (tokens p1)\<rparr>"
    by (rule Parse_InrD)
  from Parse_loop_inv [OF parser_inv_reset l] show ?thesis by (simp add: p')
qed

lemma Parse_unclosed:
  assumes "Parse_loop json (p\<lparr>pos := 0, toknext := 0, toksuper := -1\<rparr>) = Inr p1"
    and "toksuper p1 \<noteq> -1"
  shows "Parse json p = Inl UnclosedContainer"
  using assms by (simp add: Parse_def Let_def)

section \<open>The claims\<close>

text \<open>
  Claim C1.  For the input \<open>{"key": "value", "arr": [1, 2, 3]}\<close> and every capacity of at
  least 8 the scan succeeds with exactly 8 tokens: the Object with \<open>Size = 4\<close>; the String
  tokens \<open>key\<close>, \<open>value\<close> and \<open>arr\<close> with the Object (index 0) as parent; the Array with
  \<open>Size = 3\<close> and the Object as parent; and the Primitive tokens \<open>1\<close>, \<open>2\<close>, \<open>3\<close> with the
  Array (index 4) as parent.
\<close>

theorem example_object_with_array:
  assumes "8 \<le> c"
  shows \<open>parseBuffer c ''{"key": "value", "arr": [1, 2, 3]}'' =
     Inr [\<lparr>Type = Object, Start = 0, End = 34, Size = 4, ParentIdx = -1\<rparr>,
          \<lparr>Type = String, Start = 2, End = 5, Size = 0, ParentIdx = 0\<rparr>,
          \<lparr>Type = String, Start = 9, End = 14, Size = 0, ParentIdx = 0\<rparr>,
          \<lparr>Type = String, Start = 18, End = 21, Size = 0, ParentIdx = 0\<rparr>,
          \<lparr>Type = Array, Start = 24, End = 33, Size = 3, ParentIdx = 0\<rparr>,
          \<lparr>Type = Primitive, Start = 25, End = 26, Size = 0, ParentIdx = 4\<rparr>,
          \<lparr>Type = Primitive, Start = 28, End = 29, Size = 0, ParentIdx = 4\<rparr>,
          \<lparr>Type = Primitive, Start = 31, End = 32, Size = 0, ParentIdx = 4\<rparr>] \<and>
   map (token_text ''{"key": "value", "arr": [1, 2, 3]}'')
       [\<lparr>Type = String, Start = 2, End = 5, Size = 0, ParentIdx = 0\<rparr>,
        \<lparr>Type = String, Start = 9, End = 14, Size = 0, ParentIdx = 0\<rparr>,
        \<lparr>Type = String, Start = 18, End = 21, Size = 0, ParentIdx = 0\<rparr>,
        \<lparr>Type = Primitive, Start = 25, End = 26, Size = 0, ParentIdx = 4\<rparr>,
        \<lparr>Type = Primitive, Start = 28, End = 29, Size = 0, ParentIdx = 4\<rparr>,
        \<lparr>Type = Primitive, Start = 31, End = 32, Size = 0, ParentIdx = 4\<rparr>]
     = [''key'', ''value'', ''arr'', ''1'', ''2'', ''3'']\<close>
proof -
  let ?J = \<open>''{"key": "value", "arr": [1, 2, 3]}''\<close>
  let ?ts = "[\<lparr>Type = Object, Start = 0, End = 34, Size = 4, ParentIdx = -1\<rparr>,
          \<lparr>Type = String, Start = 2, End = 5, Size = 0, ParentIdx = 0\<rparr>,
          \<lparr>Type = String, Start = 9, End = 14, Size = 0, ParentIdx = 0\<rparr>,
          \<lparr>Type = String, Start = 18, End = 21, Size = 0, ParentIdx = 0\<rparr>,
          \<lparr>Type = Array, Start = 24, End = 33, Size = 3, ParentIdx = 0\<rparr>,
          \<lparr>Type = Primitive, Start = 25, End = 26, Size = 0, ParentIdx = 4\<rparr>,
          \<lparr>Type = Primitive, Start = 28, End = 29, Size = 0, ParentIdx = 4\<rparr>,
          \<lparr>Type = Primitive, Start = 31, End = 32, Size = 0, ParentIdx = 4\<rparr>]"
  have run8: "parseBuffer 8 ?J = Inr ?ts" by code_simp
  from parseBuffer_capacity [OF run8, of c] assms have "parseBuffer c ?J = Inr ?ts" by simp
  moreover have "map (token_text ?J)
       [\<lparr>Type = String, Start = 2, End = 5, Size = 0, ParentIdx = 0\<rparr>,
        \<lparr>Type = String, Start = 9, End = 14, Size = 0, ParentIdx = 0\<rparr>,
        \<lparr>Type = String, Start = 18, End = 21, Size = 0, ParentIdx = 0\<rparr>,
        \<lparr>Type = Primitive, Start = 25, End = 26, Size = 0, ParentIdx = 4\<rparr>,
        \<lparr>Type = Primitive, Start = 28, End = 29, Size = 0, ParentIdx = 4\<rparr>,
        \<lparr>Type = Primitive, Start = 31, End = 32, Size = 0, ParentIdx = 4\<rparr>]
     = [''key'', ''value'', ''arr'', ''1'', ''2'', ''3'']"
    by code_simp
  ultimately show ?thesis by simp
qed

theorem example_object_with_array_witness:
  \<open>(8::int) \<le> 10 \<and>
   parseBuffer 10 ''{"key": "value", "arr": [1, 2, 3]}'' =
     Inr [\<lparr>Type = Object, Start = 0, End = 34, Size = 4, ParentIdx = -1\<rparr>,
          \<lparr>Type = String, Start = 2, End = 5, Size = 0, ParentIdx = 0\<rparr>,
          \<lparr>Type = String, Start = 9, End = 14, Size = 0, ParentIdx = 0\<rparr>,
          \<lparr>Type = String, Start = 18, End = 21, Size = 0, ParentIdx = 0\<rparr>,
          \<lparr>Type = Array, Start = 24, End = 33, Size = 3, ParentIdx = 0\<rparr>,
          \<lparr>Type = Primitive, Start = 25, End = 26, Size = 0, ParentIdx = 4\<rparr>,
          \<lparr>Type = Primitive, Start = 28, End = 29, Size = 0, ParentIdx = 4\<rparr>,
          \<lparr>Type = Primitive, Start = 31, End = 32, Size = 0, ParentIdx = 4\<rparr>]\<close>
proof -
  have h: "(8::int) \<le> 10" by simp
  from example_object_with_array [OF h] h show ?thesis by blast
qed

text \<open>
  Claim C2.  At a colon the dispatch loop advances the position by one byte and changes
  nothing else: the current container is not set to the key token just emitted.  Hence
  when a key string has been scanned from state \<open>q\<close>, a colon follows, and the next
  iteration allocates the value's token, the key and the value both have the container
  that was current at the key, \<open>toksuper q\<close>, as \<open>ParentIdx\<close>.
\<close>

theorem Parse_step_colon:
  assumes "pos p < length json" "json ! pos p = CHR '':''"
  shows "Parse_step json p = Inr (p\<lparr>pos := pos p + 1\<rparr>) \<and>
         (\<forall>q p3. parseString json q = Inr p \<and>
                  Parse_step json (p\<lparr>pos := pos p + 1\<rparr>) = Inr p3 \<and>
                  toknext p3 = Suc (toknext p) \<longrightarrow>
                  toknext p = Suc (toknext q) \<and>
                  ParentIdx (Tokens p3 ! toknext q) = toksuper q \<and>
                  ParentIdx (Tokens p3 ! toknext p) = toksuper q)"
proof (intro conjI allI impI)
  show "Parse_step json p = Inr (p\<lparr>pos := pos p + 1\<rparr>)"
    using assms(2) by (simp add: Parse_step_def)
next
  fix q p3
  assume a: "parseString json q = Inr p \<and>
             Parse_step json (p\<lparr>pos := pos p + 1\<rparr>) = Inr p3 \<and> toknext p3 = Suc (toknext p)"
  let ?p2 = "p\<lparr>pos := pos p + 1\<rparr>"
  from a have key: "parseString json q = Inr p" and val: "Parse_step json ?p2 = Inr p3"
    and n3: "toknext p3 = Suc (toknext p)" by simp_all
  note k = parseString_slot [OF key]
  show "toknext p = Suc (toknext q)" by (rule k(2))
  have "ParentIdx (tokens p3 ! toknext q) = ParentIdx (tokens ?p2 ! toknext q)"
    using k(2) by (intro Parse_step_old_slots [OF val]) simp
  then show "ParentIdx (Tokens p3 ! toknext q) = toksuper q"
    using k n3 by (simp add: Tokens_nth)
  have "ParentIdx (tokens p3 ! toknext ?p2) = toksuper ?p2"
    using n3 by (intro Parse_step_new_slot [OF val]) simp
  then show "ParentIdx (Tokens p3 ! toknext p) = toksuper q"
    using k n3 by (simp add: Tokens_nth)
qed

theorem Parse_step_colon_witness:
  \<open>Parse_step ''{"a":1}''
      \<lparr>pos = 4, toknext = 2, toksuper = 0,
       tokens = [\<lparr>Type = Object, Start = 0, End = -1, Size = 1, ParentIdx = -1\<rparr>,
                 \<lparr>Type = String, Start = 2, End = 3, Size = 0, ParentIdx = 0\<rparr>,
                 zeroToken]\<rparr>
    = Inr \<lparr>pos = 5, toknext = 2, toksuper = 0,
           tokens = [\<lparr>Type = Object, Start = 0, End = -1, Size = 1, ParentIdx = -1\<rparr>,
                     \<lparr>Type = String, Start = 2, End = 3, Size = 0, ParentIdx = 0\<rparr>,
                     zeroToken]\<rparr> \<and>
   ParentIdx (Tokens \<lparr>pos = 6, toknext = 3, toksuper = 0,
       tokens = [\<lparr>Type = Object, Start = 0, End = -1, Size = 2, ParentIdx = -1\<rparr>,
                 \<lparr>Type = String, Start = 2, End = 3, Size = 0, ParentIdx = 0\<rparr>,
                 \<lparr>Type = Primitive, Start = 5, End = 6, Size = 0, ParentIdx = 0\<rparr>]\<rparr> ! 1) = 0 \<and>
   ParentIdx (Tokens \<lparr>pos = 6, toknext = 3, toksuper = 0,
       tokens = [\<lparr>Type = Object, Start = 0, End = -1, Size = 2, ParentIdx = -1\<rparr>,
                 \<lparr>Type = String, Start = 2, End = 3, Size = 0, ParentIdx = 0\<rparr>,
                 \<lparr>Type = Primitive, Start = 5, End = 6, Size = 0, ParentIdx = 0\<rparr>]\<rparr> ! 2) = 0\<close>
proof -
  let ?J = \<open>''{"a":1}''\<close>
  let ?Q = "\<lparr>pos = 1, toknext = 1, toksuper = 0,
       tokens = [\<lparr>Type = Object, Start = 0, End = -1, Size = 0, ParentIdx = -1\<rparr>,
                 zeroToken, zeroToken]\<rparr>"
  let ?P = "\<lparr>pos = 4, toknext = 2, toksuper = 0,
       tokens = [\<lparr>Type = Object, Start = 0, End = -1, Size = 1, ParentIdx = -1\<rparr>,
                 \<lparr>Type = String, Start = 2, End = 3, Size = 0, ParentIdx = 0\<rparr>,
                 zeroToken]\<rparr>"
  let ?P3 = "\<lparr>pos = 6, toknext = 3, toksuper = 0,
       tokens = [\<lparr>Type = Object, Start = 0, End = -1, Size = 2, ParentIdx = -1\<rparr>,
                 \<lparr>Type = String, Start = 2, End = 3, Size = 0, ParentIdx = 0\<rparr>,
                 \<lparr>Type = Primitive, Start = 5, End = 6, Size = 0, ParentIdx = 0\<rparr>]\<rparr>"
  have h1: "pos ?P < length ?J" by simp
  have h2: "?J ! pos ?P = CHR '':''" by simp
  have key: "parseString ?J ?Q = Inr ?P" by code_simp
  have val: "Parse_step ?J (?P\<lparr>pos := pos ?P + 1\<rparr>) = Inr ?P3" by code_simp
  have n: "toknext ?P3 = Suc (toknext ?P)" by simp
  note th = Parse_step_colon [OF h1 h2]
  from th have a: "Parse_step ?J ?P = Inr (?P\<lparr>pos := pos ?P + 1\<rparr>)" by (rule conjunct1)
  from th key val n
  have b: "ParentIdx (Tokens ?P3 ! toknext ?Q) = toksuper ?Q \<and>
           ParentIdx (Tokens ?P3 ! toknext ?P) = toksuper ?Q" by blast
  from a b show ?thesis by simp
qed

text \<open>
  Claim C3, amended.  An input needs exactly \<open>n\<close> tokens when the scan succeeds with \<open>n\<close>
  tokens under some capacity.  Then the scan with capacity \<open>n\<close> succeeds with the same
  tokens, and, when \<open>n \<ge> 1\<close>, the scan with capacity \<open>n - 1\<close> fails with \<open>Overflow\<close>.  A
  successful \<open>Parse\<close> leaves the length of the token array as it was: the array is never
  grown.  (For \<open>n = 0\<close> there is no smaller capacity: \<open>NewParser\<close> panics on a negative
  one, see the counterexample.)
\<close>

theorem capacity_boundary:
  assumes "parseBuffer c json = Inr ts"
  shows "parseBuffer (int (length ts)) json = Inr ts \<and>
         (1 \<le> length ts \<longrightarrow> parseBuffer (int (length ts) - 1) json = Inl Overflow) \<and>
         (\<forall>p n p'. Parse json p = Inr (n, p') \<longrightarrow> length (tokens p') = length (tokens p))"
  using parseBuffer_capacity [OF assms, of "int (length ts)"]
        parseBuffer_capacity [OF assms, of "int (length ts) - 1"]
        Parse_keeps_capacity [of json]
  by auto

theorem capacity_boundary_witness:
  \<open>parseBuffer 8 ''{"key": "value", "arr": [1, 2, 3]}'' =
     Inr [\<lparr>Type = Object, Start = 0, End = 34, Size = 4, ParentIdx = -1\<rparr>,
          \<lparr>Type = String, Start = 2, End = 5, Size = 0, ParentIdx = 0\<rparr>,
          \<lparr>Type = String, Start = 9, End = 14, Size = 0, ParentIdx = 0\<rparr>,
          \<lparr>Type = String, Start = 18, End = 21, Size = 0, ParentIdx = 0\<rparr>,
          \<lparr>Type = Array, Start = 24, End = 33, Size = 3, ParentIdx = 0\<rparr>,
          \<lparr>Type = Primitive, Start = 25, End = 26, Size = 0, ParentIdx = 4\<rparr>,
          \<lparr>Type = Primitive, Start = 28, End = 29, Size = 0, ParentIdx = 4\<rparr>,
          \<lparr>Type = Primitive, Start = 31, End = 32, Size = 0, ParentIdx = 4\<rparr>] \<and>
   parseBuffer 7 ''{"key": "value", "arr": [1, 2, 3]}'' = Inl Overflow \<and>
   parseBuffer 10 ''[1, 2]'' =
     Inr [\<lparr>Type = Array, Start = 0, End = 6, Size = 2, ParentIdx = -1\<rparr>,
          \<lparr>Type = Primitive, Start = 1, End = 2, Size = 0, ParentIdx = 0\<rparr>,
          \<lparr>Type = Primitive, Start = 4, End = 5, Size = 0, ParentIdx = 0\<rparr>] \<and>
   parseBuffer 3 ''[1, 2]'' =
     Inr [\<lparr>Type = Array, Start = 0, End = 6, Size = 2, ParentIdx = -1\<rparr>,
          \<lparr>Type = Primitive, Start = 1, End = 2, Size = 0, ParentIdx = 0\<rparr>,
          \<lparr>Type = Primitive, Start = 4, End = 5, Size = 0, ParentIdx = 0\<rparr>] \<and>
   parseBuffer 2 ''[1, 2]'' = Inl Overflow\<close>
proof -
  let ?J = \<open>''{"key": "value", "arr": [1, 2, 3]}''\<close>
  let ?ts = "[\<lparr>Type = Object, Start = 0, End = 34, Size = 4, ParentIdx = -1\<rparr>,
          \<lparr>Type = String, Start = 2, End = 5, Size = 0, ParentIdx = 0\<rparr>,
          \<lparr>Type = String, Start = 9, End = 14, Size = 0, ParentIdx = 0\<rparr>,
          \<lparr>Type = String, Start = 18, End = 21, Size = 0, ParentIdx = 0\<rparr>,
          \<lparr>Type = Array, Start = 24, End = 33, Size = 3, ParentIdx = 0\<rparr>,
          \<lparr>Type = Primitive, Start = 25, End = 26, Size = 0, ParentIdx = 4\<rparr>,
          \<lparr>Type = Primitive, Start = 28, End = 29, Size = 0, ParentIdx = 4\<rparr>,
          \<lparr>Type = Primitive, Start = 31, End = 32, Size = 0, ParentIdx = 4\<rparr>]"
  let ?us = "[\<lparr>Type = Array, Start = 0, End = 6, Size = 2, ParentIdx = -1\<rparr>,
          \<lparr>Type = Primitive, Start = 1, End = 2, Size = 0, ParentIdx = 0\<rparr>,
          \<lparr>Type = Primitive, Start = 4, End = 5, Size = 0, ParentIdx = 0\<rparr>]"
  have run8: "parseBuffer 8 ?J = Inr ?ts" by code_simp
  have run10: "parseBuffer 10 ''[1, 2]'' = Inr ?us" by code_simp
  from capacity_boundary [OF run8] have "parseBuffer 7 ?J = Inl Overflow" by simp
  moreover from capacity_boundary [OF run10]
  have "parseBuffer 3 ''[1, 2]'' = Inr ?us \<and> parseBuffer 2 ''[1, 2]'' = Inl Overflow" by simp
  ultimately show ?thesis using run8 run10 by simp
qed

text \<open>
  The claim as stated fails for an input that needs no token, such as the empty buffer:
  capacity 0 succeeds with 0 tokens, and one less, \<open>-1\<close>, is a panic in \<open>NewParser\<close>, not
  an \<open>Overflow\<close> error returned by \<open>Parse\<close>.
\<close>

theorem capacity_boundary_counterexample:
  "parseBuffer 0 [] = Inr [] \<and>
   parseBuffer (int (length ([] :: Token list)) - 1) [] = Inl Panic \<and>
   parseBuffer (int (length ([] :: Token list)) - 1) [] \<noteq> Inl Overflow"
  by (simp add: parseBuffer_def NewParser_def Parse_def Parse_loop.simps Tokens_def
                close_open_tokens_def)

text \<open>
  Claim C4.  After a successful \<open>Parse\<close> (of any buffer, on any parser, fresh or reused),
  a token at index \<open>i\<close> whose \<open>ParentIdx\<close> is \<open>j\<close>, with \<open>j\<close> not the sentinel \<open>-1\<close>, has
  \<open>0 \<le> j < i\<close>, and the token at index \<open>j\<close> is an Object or an Array.
\<close>

theorem Parse_parent_links:
  assumes "Parse json p = Inr (n, p')" "i < length (Tokens p')"
    and "ParentIdx (Tokens p' ! i) = j" "j \<noteq> -1"
  shows "0 \<le> j \<and> j < int i \<and>
         (Type (Tokens p' ! nat j) = Object \<or> Type (Tokens p' ! nat j) = Array)"
proof -
  from Parse_result_inv [OF assms(1)] have "links_ok (Tokens p')" by simp
  from links_okD [OF this assms(2)] assms(3,4) show ?thesis
    by (auto simp: is_container_def)
qed

theorem Parse_parent_links_witness:
  "(case Parse ''[[1],2]'' \<lparr>pos = 0, toknext = 0, toksuper = 0,
                              tokens = replicate 4 zeroToken\<rparr> of
      Inl e \<Rightarrow> False
    | Inr (n, p') \<Rightarrow>
        n = 4 \<and> 2 < length (Tokens p') \<and> ParentIdx (Tokens p' ! 2) = 1 \<and>
        Type (Tokens p' ! nat 1) = Array)"
proof -
  let ?r = "\<lparr>pos = 7, toknext = 4, toksuper = -1,
             tokens = [\<lparr>Type = Array, Start = 0, End = 7, Size = 2, ParentIdx = -1\<rparr>,
                       \<lparr>Type = Array, Start = 1, End = 4, Size = 1, ParentIdx = 0\<rparr>,
                       \<lparr>Type = Primitive, Start = 2, End = 3, Size = 0, ParentIdx = 1\<rparr>,
                       \<lparr>Type = Primitive, Start = 5, End = 6, Size = 0, ParentIdx = 0\<rparr>]\<rparr>"
  have run: "Parse ''[[1],2]'' \<lparr>pos = 0, toknext = 0, toksuper = 0,
                                 tokens = replicate 4 zeroToken\<rparr> = Inr (4, ?r)"
    by code_simp
  have i: "2 < length (Tokens ?r)" by (simp add: Tokens_def)
  have j: "ParentIdx (Tokens ?r ! 2) = 1" by (simp add: Tokens_def)
  from Parse_parent_links [OF run i j] show ?thesis
    by (simp add: run Tokens_def)
qed

text \<open>
  Claim C5.  The input \<open>{"a":1\<close>, whose closing brace is missing, fails: with
  \<open>UnclosedContainer\<close> for every capacity that holds its three tokens, and with some error
  for every capacity.  The error comes from the check after the normalization: whenever
  the loop ends with the current container still set, \<open>Parse\<close> returns
  \<open>UnclosedContainer\<close> and no token count.
\<close>

theorem example_missing_brace:
  \<open>(3 \<le> c \<longrightarrow> parseBuffer c ''{"a":1'' = Inl UnclosedContainer) \<and>
   (\<exists>e. parseBuffer c ''{"a":1'' = Inl e) \<and>
   (\<forall>json p p1. Parse_loop json (p\<lparr>pos := 0, toknext := 0, toksuper := -1\<rparr>) = Inr p1 \<and>
        toksuper p1 \<noteq> -1 \<longrightarrow> Parse json p = Inl UnclosedContainer)\<close>
proof -
  let ?J = \<open>''{"a":1''\<close>
  let ?p = "\<lparr>pos = 0, toknext = 0, toksuper = 0, tokens = replicate 3 zeroToken\<rparr>"
  let ?p1 = "\<lparr>pos = 6, toknext = 3, toksuper = 0,
              tokens = [\<lparr>Type = Object, Start = 0, End = -1, Size = 2, ParentIdx = -1\<rparr>,
                        \<lparr>Type = String, Start = 2, End = 3, Size = 0, ParentIdx = 0\<rparr>,
                        \<lparr>Type = Primitive, Start = 5, End = 6, Size = 0, ParentIdx = 0\<rparr>]\<rparr>"
  have loop: "Parse_loop ?J (?p\<lparr>pos := 0, toknext := 0, toksuper := -1\<rparr>) = Inr ?p1"
    by code_simp
  have big: "parseBuffer c ?J = Inl UnclosedContainer" if c: "3 \<le> c"
  proof -
    let ?q = "\<lparr>pos = 0, toknext = 0, toksuper = 0, tokens = replicate (nat c) zeroToken\<rparr>"
    have le: "toknext ?p1 \<le> length (tokens ?q)" using c by simp
    from Parse_loop_capacity_ok [OF loop le] obtain q1
      where q1: "Parse_loop ?J (?q\<lparr>pos := 0, toknext := 0, toksuper := -1\<rparr>) = Inr q1"
        "agree ?p1 q1" by blast
    from q1(2) have "toksuper q1 \<noteq> -1" by (simp add: agree_def)
    from Parse_unclosed [OF q1(1) this] c show ?thesis
      by (simp add: parseBuffer_def NewParser_def)
  qed
  have small: "\<exists>e. parseBuffer c ?J = Inl e" if c: "c < 3"
  proof -
    have r0: "parseBuffer 0 ?J = Inl Overflow" by code_simp
    have r1: "parseBuffer 1 ?J = Inl Overflow" by code_simp
    have r2: "parseBuffer 2 ?J = Inl Overflow" by code_simp
    from c consider "c < 0" | "c = 0" | "c = 1" | "c = 2" by linarith
    then show ?thesis
    proof cases
      case 1
      then show ?thesis by (simp add: parseBuffer_def NewParser_def)
    qed (use r0 r1 r2 in auto)
  qed
  from big small have "\<exists>e. parseBuffer c ?J = Inl e" by (cases "3 \<le> c") auto
  with big Parse_unclosed show ?thesis by blast
qed

theorem example_missing_brace_witness:
  \<open>parseBuffer 3 ''{"a":1'' = Inl UnclosedContainer \<and>
   parseBuffer 1000 ''{"a":1'' = Inl UnclosedContainer \<and>
   parseBuffer 2 ''{"a":1'' = Inl Overflow\<close>
proof -
  have r2: \<open>parseBuffer 2 ''{"a":1'' = Inl Overflow\<close> by code_simp
  from example_missing_brace [of 3] example_missing_brace [of 1000] r2 show ?thesis by simp
qed

text \<open>
  Claim C6.  Entered at an opening quote (the byte at \<open>pos p\<close>), \<open>parseString\<close> scans the
  bytes after it as \<open>closing_quote\<close> describes: a backslash followed by another byte is
  skipped as two bytes, uninterpreted.  When there is a first unescaped quote, at offset
  \<open>k\<close> after the opening quote, the sub-scanner allocates a String token with \<open>Start\<close> just
  after the opening quote and \<open>End\<close> at the closing quote, so the span excludes both, and
  the position moves past the closing quote (the allocator may still report that the
  array is full).  It returns \<open>UnclosedString\<close> exactly when the buffer ends before such a
  quote.
\<close>

theorem parseString_scans_to_closing_quote:
  "parseString json p =
     (case closing_quote (drop (pos p + 1) json) of
        None \<Rightarrow> Inl UnclosedString
      | Some k \<Rightarrow>
          (case allocToken \<lparr>Type = String, Start = int (pos p + 1), End = int (pos p + 1 + k),
                             Size = 0, ParentIdx = toksuper p\<rparr> (p\<lparr>pos := pos p + 1 + k\<rparr>) of
             Inl e \<Rightarrow> Inl e
           | Inr p' \<Rightarrow> Inr (p'\<lparr>pos := pos p + 1 + k + 1\<rparr>))) \<and>
   (parseString json p = Inl UnclosedString \<longleftrightarrow> closing_quote (drop (pos p + 1) json) = None) \<and>
   (\<forall>k. closing_quote (drop (pos p + 1) json) = Some k \<longrightarrow>
        pos p + 1 + k < length json \<and> json ! (pos p + 1 + k) = CHR 0x22)"
proof (intro conjI allI impI)
  show "parseString json p =
     (case closing_quote (drop (pos p + 1) json) of
        None \<Rightarrow> Inl UnclosedString
      | Some k \<Rightarrow>
          (case allocToken \<lparr>Type = String, Start = int (pos p + 1), End = int (pos p + 1 + k),
                             Size = 0, ParentIdx = toksuper p\<rparr> (p\<lparr>pos := pos p + 1 + k\<rparr>) of
             Inl e \<Rightarrow> Inl e
           | Inr p' \<Rightarrow> Inr (p'\<lparr>pos := pos p + 1 + k + 1\<rparr>)))"
    by (auto simp: parseString_eq finish_string_def add_ac split: option.splits sum.splits
             dest: allocToken_pos)
next
  show "parseString json p = Inl UnclosedString \<longleftrightarrow> closing_quote (drop (pos p + 1) json) = None"
    by (auto simp: parseString_eq split: option.splits dest: finish_string_errors)
next
  fix k assume k: "closing_quote (drop (pos p + 1) json) = Some k"
  from closing_quote_is_quote [OF k]
  have lt: "k < length json - Suc (pos p)" and q: "drop (Suc (pos p)) json ! k = CHR 0x22"
    by simp_all
  from lt show "pos p + 1 + k < length json" by linarith
  from lt q show "json ! (pos p + 1 + k) = CHR 0x22" by (simp add: add_ac)
qed

theorem parseString_scans_to_closing_quote_witness:
  "parseString [CHR 0x22, CHR ''a'', CHR 0x5C, CHR 0x22, CHR ''b'', CHR 0x22]
     \<lparr>pos = 0, toknext = 0, toksuper = -1, tokens = [zeroToken]\<rparr>
   = Inr \<lparr>pos = 6, toknext = 1, toksuper = -1,
          tokens = [\<lparr>Type = String, Start = 1, End = 5, Size = 0, ParentIdx = -1\<rparr>]\<rparr> \<and>
   closing_quote (drop 1 [CHR 0x22, CHR ''a'', CHR 0x5C, CHR 0x22, CHR ''b'', CHR 0x22]) = Some 4 \<and>
   [CHR 0x22, CHR ''a'', CHR 0x5C, CHR 0x22, CHR ''b'', CHR 0x22] ! 5 = CHR 0x22 \<and>
   parseString [CHR 0x22, CHR ''a'', CHR 0x5C, CHR 0x22, CHR ''b'']
     \<lparr>pos = 0, toknext = 0, toksuper = -1, tokens = [zeroToken]\<rparr> = Inl UnclosedString \<and>
   closing_quote (drop 1 [CHR 0x22, CHR ''a'', CHR 0x5C, CHR 0x22, CHR ''b'']) = None"
proof -
  let ?S = "[CHR 0x22, CHR ''a'', CHR 0x5C, CHR 0x22, CHR ''b'', CHR 0x22]"
  let ?U = "[CHR 0x22, CHR ''a'', CHR 0x5C, CHR 0x22, CHR ''b'']"
  let ?p = "\<lparr>pos = 0, toknext = 0, toksuper = -1, tokens = [zeroToken]\<rparr>"
  have c1: "closing_quote (drop (pos ?p + 1) ?S) = Some 4" by simp
  have c2: "closing_quote (drop (pos ?p + 1) ?U) = None" by simp
  from parseString_scans_to_closing_quote [of ?S ?p] c1
  have q: "pos ?p + 1 + 4 < length ?S \<and> ?S ! (pos ?p + 1 + 4) = CHR 0x22" by blast
  from parseString_scans_to_closing_quote [of ?U ?p] c2
  have r2: "parseString ?U ?p = Inl UnclosedString" by blast
  have r1: "parseString ?S ?p = Inr \<lparr>pos = 6, toknext = 1, toksuper = -1,
          tokens = [\<lparr>Type = String, Start = 1, End = 5, Size = 0, ParentIdx = -1\<rparr>]\<rparr>"
    by code_simp
  from r1 r2 c1 c2 q show ?thesis by simp
qed

text \<open>
  Claim C7.  After a successful \<open>Parse\<close>, the \<open>Size\<close> of the token at index \<open>j\<close> is the
  number of tokens of the result whose \<open>ParentIdx\<close> is \<open>j\<close>.  This holds for every token of
  the result, so in particular for every Object and Array token.
\<close>

theorem Parse_size_counts_children:
  assumes "Parse json p = Inr (n, p')" "j < length (Tokens p')"
  shows "Size (Tokens p' ! j) = int (length (filter (\<lambda>t. ParentIdx t = int j) (Tokens p')))"
proof -
  from Parse_result_inv [OF assms(1)] have "sizes_ok (Tokens p')" by simp
  with assms(2) show ?thesis by (simp add: sizes_ok_def count_list_map_filter)
qed

theorem Parse_size_counts_children_witness:
  "(case Parse ''[[1],2]'' \<lparr>pos = 0, toknext = 0, toksuper = 0,
                              tokens = replicate 4 zeroToken\<rparr> of
      Inl e \<Rightarrow> False
    | Inr (n, p') \<Rightarrow>
        n = 4 \<and> 0 < length (Tokens p') \<and> Type (Tokens p' ! 0) = Array \<and>
        Size (Tokens p' ! 0) = 2 \<and>
        length (filter (\<lambda>t. ParentIdx t = int 0) (Tokens p')) = 2)"
proof -
  let ?r = "\<lparr>pos = 7, toknext = 4, toksuper = -1,
             tokens = [\<lparr>Type = Array, Start = 0, End = 7, Size = 2, ParentIdx = -1\<rparr>,
                       \<lparr>Type = Array, Start = 1, End = 4, Size = 1, ParentIdx = 0\<rparr>,
                       \<lparr>Type = Primitive, Start = 2, End = 3, Size = 0, ParentIdx = 1\<rparr>,
                       \<lparr>Type = Primitive, Start = 5, End = 6, Size = 0, ParentIdx = 0\<rparr>]\<rparr>"
  have run: "Parse ''[[1],2]'' \<lparr>pos = 0, toknext = 0, toksuper = 0,
                                 tokens = replicate 4 zeroToken\<rparr> = Inr (4, ?r)"
    by code_simp
  have j: "0 < length (Tokens ?r)" by (simp add: Tokens_def)
  from Parse_size_counts_children [OF run j] show ?thesis
    by (simp add: run Tokens_def)
qed

text \<open>
  Claim C8.  For every buffer shorter than the threshold of 512 bytes, whatever the number
  of CPUs and the scheduling, \<open>ParseParallel\<close> returns the same tokens and the same error
  as one direct \<open>Parse\<close> of the buffer with the same capacity.
\<close>

theorem ParseParallel_small_input:
  "length json < 512 \<Longrightarrow>
     ParseParallel numCPU finished json numTokens = parseBuffer numTokens json"
  by (simp add: ParseParallel_def parseBuffer_def)

theorem ParseParallel_small_input_witness:
  "length ''[1, 2]'' < 512 \<and>
   ParseParallel 8 [] ''[1, 2]'' 3 = parseBuffer 3 ''[1, 2]'' \<and>
   parseBuffer 3 ''[1, 2]'' =
     Inr [\<lparr>Type = Array, Start = 0, End = 6, Size = 2, ParentIdx = -1\<rparr>,
          \<lparr>Type = Primitive, Start = 1, End = 2, Size = 0, ParentIdx = 0\<rparr>,
          \<lparr>Type = Primitive, Start = 4, End = 5, Size = 0, ParentIdx = 0\<rparr>]"
proof -
  have small: "length ''[1, 2]'' < 512" by simp
  have run: "parseBuffer 3 ''[1, 2]'' =
     Inr [\<lparr>Type = Array, Start = 0, End = 6, Size = 2, ParentIdx = -1\<rparr>,
          \<lparr>Type = Primitive, Start = 1, End = 2, Size = 0, ParentIdx = 0\<rparr>,
          \<lparr>Type = Primitive, Start = 4, End = 5, Size = 0, ParentIdx = 0\<rparr>]"
    by code_simp
  from ParseParallel_small_input [OF small, of 8 "[]" 3] small run show ?thesis
    by blast
qed

text \<open>
  Claim C9.  \<open>ParseStream\<close> returns an error when reading the source fails; otherwise it
  returns what a direct \<open>Parse\<close> of the bytes read returns with the same capacity.
\<close>

theorem ParseStream_delegates:
  "ParseStream r numTokens =
     (if read_fails r then Inl SourceReadError else parseBuffer numTokens (content r))"
  by (simp add: ParseStream_def ReadAll_def parseBuffer_def)

theorem ParseStream_delegates_witness:
  "ParseStream \<lparr>content = ''[1, 2]'', read_fails = False\<rparr> 3 = parseBuffer 3 ''[1, 2]'' \<and>
   ParseStream \<lparr>content = ''[1'', read_fails = True\<rparr> 3 = Inl SourceReadError"
  using ParseStream_delegates [of "\<lparr>content = ''[1, 2]'', read_fails = False\<rparr>" 3]
        ParseStream_delegates [of "\<lparr>content = ''[1'', read_fails = True\<rparr>" 3]
  by simp

text \<open>
  Claim C10.  \<open>Parse\<close> never returns the \<open>EmptyPrimitive\<close> error.  On a delimiter the
  dispatch loop takes the arm for a closing bracket, for a comma or for white space, so
  the primitive sub-scanner is entered only at a byte that is not a delimiter; entered
  there, its loop advances at least one byte and the zero-length check does not fire.
  Every Primitive token of a successful result has \<open>End\<close> strictly greater than \<open>Start\<close>.
\<close>

theorem Parse_never_EmptyPrimitive:
  "Parse json p \<noteq> Inl EmptyPrimitive \<and>
   (\<forall>q. is_delimiter (json ! pos q) \<longrightarrow>
        Parse_step json q = case_close q \<or> Parse_step json q = case_comma q \<or>
        Parse_step json q = Inr (q\<lparr>pos := pos q + 1\<rparr>)) \<and>
   (\<forall>q. pos q < length json \<and> \<not> is_delimiter (json ! pos q) \<longrightarrow>
        pos q < pos (parsePrimitive_loop json q) \<and> parsePrimitive json q \<noteq> Inl EmptyPrimitive) \<and>
   (\<forall>n p'. Parse json p = Inr (n, p') \<longrightarrow>
        (\<forall>t \<in> set (Tokens p'). Type t = Primitive \<longrightarrow> Start t < End t))"
proof (intro conjI allI impI ballI)
  show "Parse json p \<noteq> Inl EmptyPrimitive"
    using Parse_errors [of json p EmptyPrimitive] by auto
next
  fix q :: Parser assume "is_delimiter (json ! pos q)"
  then show "Parse_step json q = case_close q \<or> Parse_step json q = case_comma q \<or>
        Parse_step json q = Inr (q\<lparr>pos := pos q + 1\<rparr>)"
    by (rule Parse_step_delimiter)
next
  fix q :: Parser assume q: "pos q < length json \<and> \<not> is_delimiter (json ! pos q)"
  then show "pos q < pos (parsePrimitive_loop json q)"
    by (simp add: parsePrimitive_loop_advances)
  from q show "parsePrimitive json q \<noteq> Inl EmptyPrimitive"
    using parsePrimitive_errors [of q json EmptyPrimitive] by auto
next
  fix n p' t
  assume run: "Parse json p = Inr (n, p')" and t: "t \<in> set (Tokens p')" "Type t = Primitive"
  from Parse_result_inv [OF run] have "prims_ok (Tokens p')" by simp
  with t show "Start t < End t" by (auto simp: prims_ok_def in_set_conv_nth)
qed

theorem Parse_never_EmptyPrimitive_witness:
  "Parse ''[12]'' \<lparr>pos = 0, toknext = 0, toksuper = 0, tokens = replicate 2 zeroToken\<rparr>
     = Inr (2, \<lparr>pos = 4, toknext = 2, toksuper = -1,
                tokens = [\<lparr>Type = Array, Start = 0, End = 4, Size = 1, ParentIdx = -1\<rparr>,
                          \<lparr>Type = Primitive, Start = 1, End = 3, Size = 0, ParentIdx = 0\<rparr>]\<rparr>) \<and>
   \<not> is_delimiter (''[12]'' ! 1) \<and>
   pos (parsePrimitive_loop ''[12]''
          \<lparr>pos = 1, toknext = 1, toksuper = 0, tokens = replicate 2 zeroToken\<rparr>) = 3 \<and>
   is_delimiter (''[12]'' ! 3) \<and>
   Parse_step ''[12]'' \<lparr>pos = 3, toknext = 2, toksuper = -1, tokens = replicate 2 zeroToken\<rparr>
     = case_close \<lparr>pos = 3, toknext = 2, toksuper = -1, tokens = replicate 2 zeroToken\<rparr>"
proof -
  let ?J = "''[12]''"
  let ?p = "\<lparr>pos = 0, toknext = 0, toksuper = 0, tokens = replicate 2 zeroToken\<rparr>"
  let ?q = "\<lparr>pos = 1, toknext = 1, toksuper = 0, tokens = replicate 2 zeroToken\<rparr>"
  let ?d = "\<lparr>pos = 3, toknext = 2, toksuper = -1, tokens = replicate 2 zeroToken\<rparr>"
  let ?r = "\<lparr>pos = 4, toknext = 2, toksuper = -1,
             tokens = [\<lparr>Type = Array, Start = 0, End = 4, Size = 1, ParentIdx = -1\<rparr>,
                       \<lparr>Type = Primitive, Start = 1, End = 3, Size = 0, ParentIdx = 0\<rparr>]\<rparr>"
  note th = Parse_never_EmptyPrimitive [of ?J ?p]
  have run: "Parse ?J ?p = Inr (2, ?r)" by code_simp
  have nd: "pos ?q < length ?J \<and> \<not> is_delimiter (?J ! pos ?q)" by (simp add: is_delimiter_def)
  have d: "is_delimiter (?J ! pos ?d)" by (simp add: is_delimiter_def)
  from th nd have adv: "pos ?q < pos (parsePrimitive_loop ?J ?q)" by blast
  from th run have pr: "\<forall>t \<in> set (Tokens ?r). Type t = Primitive \<longrightarrow> Start t < End t" by blast
  from th d have arm: "Parse_step ?J ?d = case_close ?d \<or> Parse_step ?J ?d = case_comma ?d \<or>
        Parse_step ?J ?d = Inr (?d\<lparr>pos := pos ?d + 1\<rparr>)" by blast
  have l: "pos (parsePrimitive_loop ?J ?q) = 3" by code_simp
  have s: "Parse_step ?J ?d = case_close ?d" by (simp add: Parse_step_def)
  from run nd d adv pr arm l s show ?thesis by simp
qed

section \<open>Where the earlier revision differs\<close>

text \<open>
  Where the earlier revision differs.  At a colon it makes the key token the current
  one, so the value becomes a child of the key; it has no \<open>Overflow\<close> error, a full array
  is an index panic; and it reports success for an unclosed container.
\<close>

lemma old_colon_reassigns:
  "json ! pos p = CHR '':'' \<Longrightarrow>
     Parse_step_old json p = Inr (p\<lparr>toksuper := int (toknext p) - 1, pos := pos p + 1\<rparr>)"
  by (simp add: Parse_step_old_def)

lemma old_example_object_with_array:
  \<open>parseBuffer_old 8 ''{"key": "value", "arr": [1, 2, 3]}'' =
     Inr [\<lparr>Type = Object, Start = 0, End = 34, Size = 2, ParentIdx = -1\<rparr>,
          \<lparr>Type = String, Start = 2, End = 5, Size = 1, ParentIdx = 0\<rparr>,
          \<lparr>Type = String, Start = 9, End = 14, Size = 0, ParentIdx = 1\<rparr>,
          \<lparr>Type = String, Start = 18, End = 34, Size = 1, ParentIdx = 0\<rparr>,
          \<lparr>Type = Array, Start = 24, End = 33, Size = 3, ParentIdx = 3\<rparr>,
          \<lparr>Type = Primitive, Start = 25, End = 26, Size = 0, ParentIdx = 4\<rparr>,
          \<lparr>Type = Primitive, Start = 28, End = 29, Size = 0, ParentIdx = 4\<rparr>,
          \<lparr>Type = Primitive, Start = 31, End = 32, Size = 0, ParentIdx = 4\<rparr>]\<close>
  by code_simp

lemma old_full_array_panics:
  \<open>parseBuffer_old 7 ''{"key": "value", "arr": [1, 2, 3]}'' = Inl Panic\<close>
  by code_simp

lemma old_example_missing_brace:
  \<open>parseBuffer_old 3 ''{"a":1'' =
     Inr [\<lparr>Type = Object, Start = 0, End = 6, Size = 1, ParentIdx = -1\<rparr>,
          \<lparr>Type = String, Start = 2, End = 3, Size = 1, ParentIdx = 0\<rparr>,
          \<lparr>Type = Primitive, Start = 5, End = 6, Size = 0, ParentIdx = 1\<rparr>]\<close>
  by code_simp

end
